theory Spec2Isabelle
  imports Complex_Main
begin

section \<open>Device detection: \<open>getDeviceType\<close>\<close>

text \<open>
  The analytics helper of the landing page (\<open>src/utils/analytics.ts\<close>) is browser
  glue code.  Its first function classifies the device from the user agent string and the
  viewport width.

  The user agent is an ASCII string; \<open>toLowerCase\<close> is modelled on the ASCII letters
  and leaves every other character alone.  The two regular expressions of the source are
  alternations of literal words, without anchors, tested with the \<open>i\<close> flag: such an
  expression matches when one of its words occurs somewhere in the subject, letter case
  ignored.
\<close>

datatype device = Mobile | Tablet | Desktop

definition lower_char :: "char \<Rightarrow> char" where
  "lower_char c =
     (let n = (of_char c :: nat) in if 65 \<le> n \<and> n \<le> 90 then char_of (n + 32) else c)"

definition toLowerCase :: "string \<Rightarrow> string" where
  "toLowerCase s = map lower_char s"

text \<open>Does the literal word \<open>p\<close> match at the start of \<open>s\<close>, ignoring case?\<close>

fun word_at :: "string \<Rightarrow> string \<Rightarrow> bool" where
  "word_at [] s = True"
| "word_at (p # ps) [] = False"
| "word_at (p # ps) (c # cs) = (lower_char p = lower_char c \<and> word_at ps cs)"

text \<open>\<open>/w1|w2|...|wn/i.test(s)\<close>: some alternative matches at some position of \<open>s\<close>.\<close>

fun regex_test :: "string list \<Rightarrow> string \<Rightarrow> bool" where
  "regex_test alts [] = list_ex (\<lambda>p. word_at p []) alts"
| "regex_test alts (c # cs) = (list_ex (\<lambda>p. word_at p (c # cs)) alts \<or> regex_test alts cs)"

definition mobile_pattern :: "string list" where
  "mobile_pattern =
     [''mobile'', ''android'', ''iphone'', ''ipod'', ''blackberry'', ''iemobile'', ''opera mini'']"

definition tablet_pattern :: "string list" where
  "tablet_pattern = [''tablet'', ''ipad'', ''playbook'', ''silk'']"

text \<open>
  What the function reads from the browser: \<open>window.innerWidth\<close> (an integer number of
  CSS pixels) and \<open>navigator.userAgent\<close>.  Outside a browser there is no \<open>window\<close>:
  the argument is \<open>None\<close> then, and the first line of the source answers \<open>desktop\<close>.
\<close>

record browser =
  innerWidth :: int
  userAgent :: string

fun getDeviceType :: "browser option \<Rightarrow> device" where
  "getDeviceType None = Desktop"
| "getDeviceType (Some b) =
     (let width = innerWidth b;
          ua = toLowerCase (userAgent b)
      in if regex_test mobile_pattern ua then Mobile
         else if regex_test tablet_pattern ua \<or> (width \<ge> 768 \<and> width < 1024) then Tablet
         else if width < 768 then Mobile
         else if width < 1024 then Tablet
         else Desktop)"

section \<open>Values and property bags\<close>

text \<open>
  A JavaScript number is a double.  The model keeps the three special values apart and
  takes the finite ones as exact rationals: the rounding error of a double division is not
  modelled.  The two can differ by one at a tie: for a page scrolled 290 of 2000 pixels the
  exact quotient rounds to 15, while the double product is just below 14.5 and rounds to 14.
  Nothing below depends on which integer a percentage rounds to.
\<close>

datatype jsnum = NaN | NegInfinity | Finite rat | Infinity

text \<open>\<open>a > b\<close> on numbers: every comparison with \<open>NaN\<close> is false.\<close>

fun js_gt :: "jsnum \<Rightarrow> jsnum \<Rightarrow> bool" where
  "js_gt NaN b = False"
| "js_gt a NaN = False"
| "js_gt NegInfinity b = False"
| "js_gt (Finite x) NegInfinity = True"
| "js_gt (Finite x) (Finite y) = (y < x)"
| "js_gt (Finite x) Infinity = False"
| "js_gt Infinity Infinity = False"
| "js_gt Infinity b = True"

text \<open>\<open>a / b\<close> for finite operands; the divisor of the source is never \<open>-0\<close>.\<close>

definition js_div :: "rat \<Rightarrow> rat \<Rightarrow> jsnum" where
  "js_div a b =
     (if b = 0 then (if a = 0 then NaN else if 0 < a then Infinity else NegInfinity)
      else Finite (a / b))"

fun js_times :: "jsnum \<Rightarrow> rat \<Rightarrow> jsnum" where
  "js_times (Finite x) k = Finite (x * k)"
| "js_times n k = n"

text \<open>\<open>Math.round\<close>: the nearest integer, a tie going up.\<close>

fun Math_round :: "jsnum \<Rightarrow> jsnum" where
  "Math_round (Finite x) = Finite (of_int \<lfloor>x + 1 / 2\<rfloor>)"
| "Math_round n = n"

text \<open>
  Property values.  \<open>JTemplate n s\<close> stands for the string that the template literal
  \<open>`${n}s`\<close> produces; the decimal rendering of the number is not expanded.
\<close>

datatype js_value =
    JNull
  | JBool bool
  | JNum jsnum
  | JStr string
  | JTemplate jsnum string
  | JArray "js_value list"
  | JObject "(string \<times> js_value) list"

text \<open>
  A property bag (\<open>Record<string, any>\<close>) is the list of its own properties in
  property order.  \<open>set_prop\<close> is an assignment \<open>o[k] = v\<close>: an existing key keeps its
  place and takes the new value, a new key goes to the end.
\<close>

type_synonym props = "(string \<times> js_value) list"

fun set_prop :: "string \<Rightarrow> js_value \<Rightarrow> props \<Rightarrow> props" where
  "set_prop k v [] = [(k, v)]"
| "set_prop k v ((k', v') # ps) =
     (if k' = k then (k, v) # ps else (k', v') # set_prop k v ps)"

text \<open>
  \<open>{ ...properties, timestamp: new Date().toISOString() }\<close>: the spread of an absent
  argument adds nothing; \<open>stamp\<close> is the string the clock gives at that moment.
\<close>

definition enrichedProperties :: "props option \<Rightarrow> string \<Rightarrow> props" where
  "enrichedProperties properties stamp =
     set_prop ''timestamp'' (JStr stamp) (case properties of None \<Rightarrow> [] | Some ps \<Rightarrow> ps)"

section \<open>The browser as a state\<close>

text \<open>
  Apart from \<open>getDeviceType\<close>, which asks whether \<open>window\<close> exists, the module
  takes the browser for granted: \<open>window\<close>, \<open>document\<close>, the timer functions and
  \<open>IntersectionObserver\<close> are there.  The state below is that of a page in a browser;
  what a call of \<open>trackEvent\<close> does without one is said by \<open>trackEvent_call\<close>.
  The module runs on the browser's main thread, one event handler at a time.  The state
  holds what the module reads and writes: \<open>window.gtag\<close>, the clock, the ids present in
  the document, the two module variables \<open>maxScrollDepth\<close> and \<open>scrollTimeout\<close>,
  the list of active timers with the next free handle, the scroll listeners and the
  intersection observers the module has registered.  Two logs record what leaves the
  module: the calls \<open>window.gtag\<close> has received and the errors given to
  \<open>console.error\<close>.
\<close>

datatype js_error = JsError string

text \<open>
  \<open>window.gtag\<close> is a third-party function.  All the module can observe of a call is
  whether it returns or throws: \<open>Some e\<close> is the value thrown.
\<close>

type_synonym gtag_fn = "string \<Rightarrow> string \<Rightarrow> props \<Rightarrow> js_error option"

text \<open>
  The only function ever passed to \<open>waitForGtag\<close> is the \<open>sendEvent\<close> closure of
  \<open>trackEvent\<close>, which captures \<open>eventName\<close> and \<open>enrichedProperties\<close>.
\<close>

datatype callback = SendEvent string props

text \<open>
  An active timer is either the polling interval of \<open>waitForGtag\<close> (its delay, the
  captured counter \<open>attempts\<close>, \<open>maxAttempts\<close> and the callback) or the debounce
  timeout of the scroll tracker (its delay and the captured \<open>scrollPercent\<close>).
\<close>

datatype timer =
    Interval nat nat nat callback
  | Timeout nat jsnum

fun is_Timeout :: "timer \<Rightarrow> bool" where
  "is_Timeout (Timeout d p) = True"
| "is_Timeout (Interval d a m cb) = False"

record observer =
  ob_sectionId :: string
  ob_eventName :: string
  threshold :: rat
  rootMargin :: string
  targets :: "string list"

record entry =
  target :: string
  isIntersecting :: bool

record world =
  gtag :: "gtag_fn option"
  clock :: string
  document_ids :: "string list"
  maxScrollDepth :: jsnum
  scrollTimeout :: "nat option"
  timers :: "(nat \<times> timer) list"
  next_handle :: nat
  scroll_listeners :: nat
  observers :: "(nat \<times> observer) list"
  gtag_calls :: "(string \<times> string \<times> props) list"
  console_errors :: "js_error list"

text \<open>
  A fresh page: the module variables have their initial values, no timer is active, and
  timer handles start at 1 (a handle is an integer greater than zero).
\<close>

definition page_load :: "gtag_fn option \<Rightarrow> string \<Rightarrow> string list \<Rightarrow> world" where
  "page_load g stamp ids =
     \<lparr>gtag = g, clock = stamp, document_ids = ids, maxScrollDepth = Finite 0,
      scrollTimeout = None, timers = [], next_handle = 1, scroll_listeners = 0,
      observers = [], gtag_calls = [], console_errors = []\<rparr>"

text \<open>
  A piece of code either returns or throws, in both cases leaving a state behind.
\<close>

datatype outcome = Returns world | Throws js_error world

fun then_do :: "outcome \<Rightarrow> (world \<Rightarrow> outcome) \<Rightarrow> outcome" where
  "then_do (Returns w) f = f w"
| "then_do (Throws e w) f = Throws e w"

text \<open>The state after a handler has run; an uncaught exception ends the handler.\<close>

fun after :: "outcome \<Rightarrow> world" where
  "after (Returns w) = w"
| "after (Throws e w) = w"

subsection \<open>Timers\<close>

text \<open>
  \<open>setTimeout\<close> and \<open>setInterval\<close> share one list of active timers and one supply of
  handles; \<open>clearTimeout\<close> and \<open>clearInterval\<close> are the same operation.
\<close>

definition set_timer :: "timer \<Rightarrow> world \<Rightarrow> nat \<times> world" where
  "set_timer t w =
     (next_handle w,
      w\<lparr>timers := timers w @ [(next_handle w, t)], next_handle := next_handle w + 1\<rparr>)"

definition clear_timer :: "nat \<Rightarrow> world \<Rightarrow> world" where
  "clear_timer h w = w\<lparr>timers := filter (\<lambda>kt. fst kt \<noteq> h) (timers w)\<rparr>"

definition clearTimeout :: "nat \<Rightarrow> world \<Rightarrow> world" where
  "clearTimeout h w = clear_timer h w"

definition clearInterval :: "nat \<Rightarrow> world \<Rightarrow> world" where
  "clearInterval h w = clear_timer h w"

text \<open>The \<open>attempts++\<close> of the interval handler, on the counter its closure captured.\<close>

fun bump_attempts :: "nat \<Rightarrow> nat \<times> timer \<Rightarrow> nat \<times> timer" where
  "bump_attempts h (k, Interval d a m cb) =
     (if k = h then (k, Interval d (a + 1) m cb) else (k, Interval d a m cb))"
| "bump_attempts h (k, Timeout d p) = (k, Timeout d p)"

section \<open>Sending events: \<open>trackEvent\<close> and \<open>waitForGtag\<close>\<close>

text \<open>
  The call \<open>window.gtag('event', eventName, enrichedProperties)\<close>: the call is received
  (and logged), then it returns or throws.
\<close>

definition call_gtag :: "gtag_fn \<Rightarrow> string \<Rightarrow> props \<Rightarrow> world \<Rightarrow> outcome" where
  "call_gtag g eventName ps w =
     (let w' = w\<lparr>gtag_calls := gtag_calls w @ [(''event'', eventName, ps)]\<rparr>
      in case g ''event'' eventName ps of
           None \<Rightarrow> Returns w'
         | Some e \<Rightarrow> Throws e w')"

definition console_error :: "js_error \<Rightarrow> world \<Rightarrow> world" where
  "console_error e w = w\<lparr>console_errors := console_errors w @ [e]\<rparr>"

text \<open>The closure \<open>sendEvent\<close>, with its \<open>try\<close>/\<open>catch\<close> around the call.\<close>

definition sendEvent :: "string \<Rightarrow> props \<Rightarrow> world \<Rightarrow> outcome" where
  "sendEvent eventName ps w =
     (case gtag w of
        None \<Rightarrow> Returns w
      | Some g \<Rightarrow>
          (case call_gtag g eventName ps w of
             Returns w' \<Rightarrow> Returns w'
           | Throws e w' \<Rightarrow> Returns (console_error e w')))"

fun run_callback :: "callback \<Rightarrow> world \<Rightarrow> outcome" where
  "run_callback (SendEvent eventName ps) w = sendEvent eventName ps w"

text \<open>
  \<open>waitForGtag\<close> sets \<open>attempts\<close> to 0 and starts an interval of 100 ms;
  \<open>poll\<close> is the handler of that interval, run at each expiry while the timer is active.
\<close>

definition waitForGtag :: "callback \<Rightarrow> nat \<Rightarrow> world \<Rightarrow> outcome" where
  "waitForGtag cb maxAttempts w = Returns (snd (set_timer (Interval 100 0 maxAttempts cb) w))"

definition poll :: "nat \<Rightarrow> nat \<Rightarrow> nat \<Rightarrow> callback \<Rightarrow> world \<Rightarrow> outcome" where
  "poll h a m cb w =
     (let w1 = w\<lparr>timers := map (bump_attempts h) (timers w)\<rparr>;
          attempts = a + 1
      in if gtag w1 \<noteq> None then then_do (Returns (clearInterval h w1)) (run_callback cb)
         else if attempts \<ge> m then Returns (clearInterval h w1)
         else Returns w1)"

definition trackEvent :: "string \<Rightarrow> props option \<Rightarrow> world \<Rightarrow> outcome" where
  "trackEvent eventName properties w =
     (let enriched = enrichedProperties properties (clock w)
      in if gtag w \<noteq> None then sendEvent eventName enriched w
         else waitForGtag (SendEvent eventName enriched) 50 w)"

definition trackCTAClick :: "string \<Rightarrow> world \<Rightarrow> outcome" where
  "trackCTAClick position w =
     trackEvent ''LandingPg_CTA_Clicked'' (Some [(''cta_position'', JStr position)]) w"

subsection \<open>The call as any caller can make it\<close>

text \<open>
  \<open>trackEvent\<close> above is the function on a page in a browser, given a bag of plain data.
  A caller can reach two more paths, and both lie outside the \<open>try\<close> of the source.
  The spread \<open>...properties\<close> reads every own property of the argument in property order,
  and a property can be an accessor whose getter throws: the exception leaves
  \<open>trackEvent\<close> before anything else has happened.  And outside a browser there is no
  \<open>window\<close>: the bag is built, and the test \<open>window.gtag\<close> then throws a
  \<open>ReferenceError\<close>.  Unlike \<open>getDeviceType\<close>, \<open>trackEvent\<close> has no
  \<open>typeof window\<close> guard.
\<close>

datatype property = Data js_value | ThrowingGetter js_error

type_synonym js_object = "(string \<times> property) list"

fun spread :: "js_object \<Rightarrow> js_error + props" where
  "spread [] = Inr []"
| "spread ((k, Data v) # rest) =
     (case spread rest of Inl e \<Rightarrow> Inl e | Inr ps \<Rightarrow> Inr ((k, v) # ps))"
| "spread ((k, ThrowingGetter e) # rest) = Inl e"

text \<open>Reading the optional argument: an absent one has nothing to read.\<close>

definition read_properties :: "js_object option \<Rightarrow> js_error + props option" where
  "read_properties properties =
     (case properties of
        None \<Rightarrow> Inr None
      | Some obj \<Rightarrow> (case spread obj of Inl e \<Rightarrow> Inl e | Inr ps \<Rightarrow> Inr (Some ps)))"

definition no_window :: js_error where
  "no_window = JsError ''ReferenceError: window is not defined''"

text \<open>
  What the caller gets: the function returns, or an exception reaches the caller; in the
  second case the state of the page, if there is a page, is kept too.
\<close>

datatype reply = Returned world | Raised js_error "world option"

fun to_caller :: "outcome \<Rightarrow> reply" where
  "to_caller (Returns w) = Returned w"
| "to_caller (Throws e w) = Raised e (Some w)"

text \<open>
  The call \<open>trackEvent(eventName, properties)\<close> in an environment that is a page
  (\<open>Some w\<close>) or has no \<open>window\<close> (\<open>None\<close>).
\<close>

definition trackEvent_call :: "string \<Rightarrow> js_object option \<Rightarrow> world option \<Rightarrow> reply" where
  "trackEvent_call eventName properties page =
     (case read_properties properties of
        Inl e \<Rightarrow> Raised e page
      | Inr bag \<Rightarrow>
          (case page of
             None \<Rightarrow> Raised no_window None
           | Some w \<Rightarrow> to_caller (trackEvent eventName bag w)))"

section \<open>Scroll depth: \<open>initScrollTracking\<close>\<close>

text \<open>What the scroll handler reads from the window and the document.\<close>

record scroll_sample =
  innerHeight :: int
  scrollHeight :: int
  scrollY :: rat
  scrollTop :: rat

definition scrollPercent :: "scroll_sample \<Rightarrow> jsnum" where
  "scrollPercent s =
     (let windowHeight = innerHeight s;
          documentHeight = scrollHeight s;
          top = (if scrollY s \<noteq> 0 then scrollY s else scrollTop s)
      in Math_round (js_times (js_div top (of_int (documentHeight - windowHeight))) 100))"

text \<open>\<open>if (scrollTimeout)\<close>: a handle is truthy when it is not \<open>null\<close> and not 0.\<close>

fun truthy_handle :: "nat option \<Rightarrow> bool" where
  "truthy_handle None = False"
| "truthy_handle (Some h) = (h \<noteq> 0)"

definition trackScroll :: "scroll_sample \<Rightarrow> world \<Rightarrow> world" where
  "trackScroll s w =
     (let p = scrollPercent s
      in if js_gt p (maxScrollDepth w) then
           (let w1 = w\<lparr>maxScrollDepth := p\<rparr>;
                w2 = (if truthy_handle (scrollTimeout w1)
                      then clearTimeout (the (scrollTimeout w1)) w1 else w1);
                (h, w3) = set_timer (Timeout 500 p) w2
            in w3\<lparr>scrollTimeout := Some h\<rparr>)
         else w)"

text \<open>The handler of the debounce timeout, with the \<open>scrollPercent\<close> it captured.\<close>

definition scroll_timeout_handler :: "jsnum \<Rightarrow> world \<Rightarrow> outcome" where
  "scroll_timeout_handler p w =
     trackEvent ''LandingPg_Scroll''
       (Some [(''scroll_depth'', JNum p), (''scroll_depth_percent'', JTemplate p ''%'')]) w"

text \<open>
  Each call of \<open>initScrollTracking\<close> creates a new \<open>trackScroll\<close> closure and adds it
  as a listener; all of them work on the same two module variables.
\<close>

definition initScrollTracking :: "world \<Rightarrow> world" where
  "initScrollTracking w = w\<lparr>scroll_listeners := scroll_listeners w + 1\<rparr>"

section \<open>Section views: \<open>trackSectionView\<close>\<close>

definition disconnect :: "nat \<Rightarrow> world \<Rightarrow> world" where
  "disconnect oid w =
     w\<lparr>observers := map (\<lambda>(k, ob). if k = oid then (k, ob\<lparr>targets := []\<rparr>) else (k, ob))
                       (observers w)\<rparr>"

text \<open>
  The observer callback: \<open>entries.forEach\<close> visits every entry of the batch, and each
  intersecting one calls \<open>trackEvent\<close> and then \<open>observer.disconnect()\<close>.
\<close>

fun forEach_entry :: "nat \<Rightarrow> string \<Rightarrow> string \<Rightarrow> entry list \<Rightarrow> world \<Rightarrow> outcome" where
  "forEach_entry oid sectionId eventName [] w = Returns w"
| "forEach_entry oid sectionId eventName (e # es) w =
     (if isIntersecting e then
        then_do
          (then_do (trackEvent eventName (Some [(''section_id'', JStr sectionId)]) w)
                   (\<lambda>w'. Returns (disconnect oid w')))
          (forEach_entry oid sectionId eventName es)
      else forEach_entry oid sectionId eventName es w)"

text \<open>
  \<open>document.getElementById\<close> finds an element exactly for the ids of the document.
  A new observer is identified by its position in the list of observers.
\<close>

definition trackSectionView :: "string \<Rightarrow> string \<Rightarrow> world \<Rightarrow> world" where
  "trackSectionView sectionId eventName w =
     (if sectionId \<notin> set (document_ids w) then w
      else
        w\<lparr>observers := observers w @
            [(length (observers w),
              \<lparr>ob_sectionId = sectionId, ob_eventName = eventName, threshold = 3 / 10,
               rootMargin = ''0px'', targets = [sectionId]\<rparr>)]\<rparr>)"

section \<open>The event loop\<close>

text \<open>
  What can happen on the page: a caller uses one of the exported functions, the browser
  dispatches a scroll event, a timer expires, an observer is notified with a batch of
  entries, or the environment changes (\<open>window.gtag\<close> is defined by the tag script,
  time passes, the document changes).  A timer that is no longer active does not fire,
  and an observer without targets is not notified.  A timeout is removed from the active
  timers once its handler has run.
\<close>

datatype event =
    CallTrackEvent string "props option"
  | CallTrackCTAClick string
  | CallInitScrollTracking
  | CallTrackSectionView string string
  | ScrollEvent scroll_sample
  | TimerFires nat
  | ObserverNotifies nat "entry list"
  | GtagBecomes "gtag_fn option"
  | ClockBecomes string
  | DocumentBecomes "string list"

definition timer_fires :: "nat \<Rightarrow> world \<Rightarrow> outcome" where
  "timer_fires h w =
     (case map_of (timers w) h of
        None \<Rightarrow> Returns w
      | Some (Interval d a m cb) \<Rightarrow> poll h a m cb w
      | Some (Timeout d p) \<Rightarrow>
          then_do (scroll_timeout_handler p w) (\<lambda>w'. Returns (clear_timer h w')))"

definition observer_notifies :: "nat \<Rightarrow> entry list \<Rightarrow> world \<Rightarrow> outcome" where
  "observer_notifies oid entries w =
     (case map_of (observers w) oid of
        None \<Rightarrow> Returns w
      | Some ob \<Rightarrow>
          if targets ob = [] then Returns w
          else forEach_entry oid (ob_sectionId ob) (ob_eventName ob) entries w)"

fun step :: "event \<Rightarrow> world \<Rightarrow> world" where
  "step (CallTrackEvent eventName properties) w = after (trackEvent eventName properties w)"
| "step (CallTrackCTAClick position) w = after (trackCTAClick position w)"
| "step CallInitScrollTracking w = initScrollTracking w"
| "step (CallTrackSectionView sectionId eventName) w = trackSectionView sectionId eventName w"
| "step (ScrollEvent s) w = (trackScroll s ^^ scroll_listeners w) w"
| "step (TimerFires h) w = after (timer_fires h w)"
| "step (ObserverNotifies oid entries) w = after (observer_notifies oid entries w)"
| "step (GtagBecomes g) w = w\<lparr>gtag := g\<rparr>"
| "step (ClockBecomes stamp) w = w\<lparr>clock := stamp\<rparr>"
| "step (DocumentBecomes ids) w = w\<lparr>document_ids := ids\<rparr>"

fun run :: "world \<Rightarrow> event list \<Rightarrow> world" where
  "run w [] = w"
| "run w (e # es) = run (step e w) es"

section \<open>Observations on states and runs\<close>

text \<open>The debounce timeouts among the active timers.\<close>

definition pending_debounce :: "world \<Rightarrow> (nat \<times> timer) list" where
  "pending_debounce w = filter (\<lambda>kt. is_Timeout (snd kt)) (timers w)"

text \<open>The percentage captured by the debounce timeout with handle \<open>h\<close>, if it is active.\<close>

definition timeout_at :: "nat \<Rightarrow> world \<Rightarrow> jsnum option" where
  "timeout_at h w =
     (case map_of (timers w) h of
        Some (Timeout d p) \<Rightarrow> Some p
      | Some (Interval d a m cb) \<Rightarrow> None
      | None \<Rightarrow> None)"

text \<open>
  Handles are handed out in increasing order, so every active timer has a handle below
  the next free one.
\<close>

definition handles_fresh :: "world \<Rightarrow> bool" where
  "handles_fresh w = list_all (\<lambda>kt. fst kt < next_handle w) (timers w)"

text \<open>
  What the scroll tracker maintains: handles are positive and pairwise distinct, and a
  debounce timeout that is active is the one \<open>scrollTimeout\<close> refers to.
\<close>

definition debounce_inv :: "world \<Rightarrow> bool" where
  "debounce_inv w =
     (0 < next_handle w \<and> distinct (map fst (timers w)) \<and> handles_fresh w \<and>
      list_all (\<lambda>kt. is_Timeout (snd kt) \<longrightarrow> scrollTimeout w = Some (fst kt)) (timers w) \<and>
      scrollTimeout w \<noteq> Some 0)"

text \<open>
  Counting along a run, for the polling interval with handle \<open>h\<close>: \<open>polls\<close> is the
  number of times its handler runs (the timer expires while it is active), and
  \<open>callbacks\<close> the number of those runs that find \<open>window.gtag\<close> defined, which are
  the runs that invoke the callback.
\<close>

fun fires :: "nat \<Rightarrow> event \<Rightarrow> bool" where
  "fires h (TimerFires k) = (k = h)"
| "fires h e = False"

definition interval_at :: "nat \<Rightarrow> world \<Rightarrow> bool" where
  "interval_at h w =
     (case map_of (timers w) h of
        Some (Interval d a m cb) \<Rightarrow> True
      | Some (Timeout d p) \<Rightarrow> False
      | None \<Rightarrow> False)"

fun polls :: "nat \<Rightarrow> world \<Rightarrow> event list \<Rightarrow> nat" where
  "polls h w [] = 0"
| "polls h w (e # es) =
     (if fires h e \<and> interval_at h w then 1 else 0) + polls h (step e w) es"

fun callbacks :: "nat \<Rightarrow> world \<Rightarrow> event list \<Rightarrow> nat" where
  "callbacks h w [] = 0"
| "callbacks h w (e # es) =
     (if fires h e \<and> interval_at h w \<and> gtag w \<noteq> None then 1 else 0) +
     callbacks h (step e w) es"

text \<open>The polls the interval with handle \<open>h\<close> has left before it gives up.\<close>

definition budget :: "nat \<Rightarrow> world \<Rightarrow> nat" where
  "budget h w =
     (case map_of (timers w) h of
        Some (Interval d a m cb) \<Rightarrow> (if a < m then m - a else 1)
      | Some (Timeout d p) \<Rightarrow> 0
      | None \<Rightarrow> 0)"

text \<open>
  From \<open>w\<close> to \<open>w'\<close> handles stay fresh, and the timer under the handle \<open>h\<close> is
  the same as before or has been cleared.
\<close>

definition kept :: "nat \<Rightarrow> world \<Rightarrow> world \<Rightarrow> bool" where
  "kept h w w' =
     (handles_fresh w' \<and> next_handle w \<le> next_handle w' \<and>
      (map_of (timers w') h = map_of (timers w) h \<or> map_of (timers w') h = None))"

text \<open>A property bag is stamped when it has a string under the key \<open>timestamp\<close>.\<close>

definition stamped :: "props \<Rightarrow> bool" where
  "stamped ps = (case map_of ps ''timestamp'' of Some (JStr t) \<Rightarrow> True | _ \<Rightarrow> False)"

fun stamped_timer :: "timer \<Rightarrow> bool" where
  "stamped_timer (Interval d a m (SendEvent n ps)) = stamped ps"
| "stamped_timer (Timeout d p) = True"

definition stamped_inv :: "world \<Rightarrow> bool" where
  "stamped_inv w =
     (list_all (\<lambda>c. stamped (snd (snd c))) (gtag_calls w) \<and>
      list_all (\<lambda>kt. stamped_timer (snd kt)) (timers w))"


section \<open>Basic facts\<close>

lemma sendEvent_eq:
  "sendEvent n ps w =
     Returns (case gtag w of
        None \<Rightarrow> w
      | Some g \<Rightarrow>
          (case g ''event'' n ps of
             None \<Rightarrow> w\<lparr>gtag_calls := gtag_calls w @ [(''event'', n, ps)]\<rparr>
           | Some e \<Rightarrow> w\<lparr>gtag_calls := gtag_calls w @ [(''event'', n, ps)],
                          console_errors := console_errors w @ [e]\<rparr>))"
  by (simp add: sendEvent_def call_gtag_def console_error_def Let_def split: option.splits)

lemma trackEvent_eq:
  "trackEvent n p w =
     Returns (case gtag w of
        None \<Rightarrow>
          w\<lparr>timers := timers w @
               [(next_handle w, Interval 100 0 50 (SendEvent n (enrichedProperties p (clock w))))],
            next_handle := next_handle w + 1\<rparr>
      | Some g \<Rightarrow>
          (case g ''event'' n (enrichedProperties p (clock w)) of
             None \<Rightarrow>
               w\<lparr>gtag_calls := gtag_calls w @ [(''event'', n, enrichedProperties p (clock w))]\<rparr>
           | Some e \<Rightarrow>
               w\<lparr>gtag_calls := gtag_calls w @ [(''event'', n, enrichedProperties p (clock w))],
                 console_errors := console_errors w @ [e]\<rparr>))"
  by (simp add: trackEvent_def sendEvent_eq waitForGtag_def set_timer_def Let_def
           split: option.splits)

lemma map_of_set_prop:
  "map_of (set_prop k v ps) k' = (if k' = k then Some v else map_of ps k')"
  by (induction ps) auto

lemma keys_set_prop:
  "map fst (set_prop k v ps) = (if k \<in> fst ` set ps then map fst ps else map fst ps @ [k])"
proof (induction ps)
  case Nil
  show ?case by simp
next
  case (Cons a ps)
  obtain k' v' where a: "a = (k', v')" by (cases a)
  show ?case
  proof (cases "k' = k")
    case True
    with a show ?thesis by simp
  next
    case False
    with a Cons show ?thesis by simp
  qed
qed

lemma trackEvent_returns: "trackEvent n p w = Returns (after (trackEvent n p w))"
  by (simp add: trackEvent_eq)

lemma trackEvent_timers:
  "timers (after (trackEvent n p w)) =
     (if gtag w = None
      then timers w @
             [(next_handle w, Interval 100 0 50 (SendEvent n (enrichedProperties p (clock w))))]
      else timers w)"
  by (simp add: trackEvent_eq split: option.splits)

lemma trackEvent_next_handle:
  "next_handle (after (trackEvent n p w)) =
     (if gtag w = None then next_handle w + 1 else next_handle w)"
  by (simp add: trackEvent_eq split: option.splits)

lemma trackEvent_gtag_calls:
  "gtag_calls (after (trackEvent n p w)) =
     (if gtag w = None then gtag_calls w
      else gtag_calls w @ [(''event'', n, enrichedProperties p (clock w))])"
  by (simp add: trackEvent_eq split: option.splits)

lemma trackEvent_frame:
  "scrollTimeout (after (trackEvent n p w)) = scrollTimeout w"
  "maxScrollDepth (after (trackEvent n p w)) = maxScrollDepth w"
  "gtag (after (trackEvent n p w)) = gtag w"
  "clock (after (trackEvent n p w)) = clock w"
  "document_ids (after (trackEvent n p w)) = document_ids w"
  "scroll_listeners (after (trackEvent n p w)) = scroll_listeners w"
  "observers (after (trackEvent n p w)) = observers w"
  by (simp_all add: trackEvent_eq split: option.splits)

lemma sendEvent_frame:
  "timers (after (sendEvent n ps w)) = timers w"
  "next_handle (after (sendEvent n ps w)) = next_handle w"
  "scrollTimeout (after (sendEvent n ps w)) = scrollTimeout w"
  "maxScrollDepth (after (sendEvent n ps w)) = maxScrollDepth w"
  by (simp_all add: sendEvent_eq split: option.splits)

lemma disconnect_frame:
  "timers (disconnect oid w) = timers w"
  "next_handle (disconnect oid w) = next_handle w"
  "scrollTimeout (disconnect oid w) = scrollTimeout w"
  "maxScrollDepth (disconnect oid w) = maxScrollDepth w"
  "gtag_calls (disconnect oid w) = gtag_calls w"
  "gtag (disconnect oid w) = gtag w"
  by (simp_all add: disconnect_def)

lemma forEach_entry_Cons:
  "forEach_entry oid sid ev (e # es) w =
     (if isIntersecting e
      then forEach_entry oid sid ev es
             (disconnect oid (after (trackEvent ev (Some [(''section_id'', JStr sid)]) w)))
      else forEach_entry oid sid ev es w)"
  by (simp add: trackEvent_eq)

lemma fst_bump_attempts: "fst (bump_attempts h kt) = fst kt"
  by (cases "(h, kt)" rule: bump_attempts.cases) simp_all

lemma is_Timeout_bump_attempts: "is_Timeout (snd (bump_attempts h kt)) = is_Timeout (snd kt)"
  by (cases "(h, kt)" rule: bump_attempts.cases) simp_all

lemma poll_eq:
  "poll h a m cb w =
     (let w1 = w\<lparr>timers := map (bump_attempts h) (timers w)\<rparr>
      in if gtag w \<noteq> None then run_callback cb (clear_timer h w1)
         else if a + 1 \<ge> m then Returns (clear_timer h w1)
         else Returns w1)"
  by (simp add: poll_def clearInterval_def Let_def)

lemma js_gt_irrefl: "\<not> js_gt p p"
  by (cases p) simp_all

lemma trackScroll_eq:
  "trackScroll s w =
     (if js_gt (scrollPercent s) (maxScrollDepth w)
      then w\<lparr>maxScrollDepth := scrollPercent s,
             timers := (if truthy_handle (scrollTimeout w)
                        then filter (\<lambda>kt. fst kt \<noteq> the (scrollTimeout w)) (timers w)
                        else timers w) @ [(next_handle w, Timeout 500 (scrollPercent s))],
             next_handle := next_handle w + 1,
             scrollTimeout := Some (next_handle w)\<rparr>
      else w)"
  by (simp add: trackScroll_def set_timer_def clearTimeout_def clear_timer_def Let_def)

lemma trackScroll_twice: "trackScroll s (trackScroll s w) = trackScroll s w"
  by (simp add: trackScroll_eq js_gt_irrefl)

lemma trackScroll_funpow:
  "(trackScroll s ^^ n) w = (if n = 0 then w else trackScroll s w)"
proof (induction n)
  case 0
  show ?case by simp
next
  case (Suc n)
  then show ?case by (simp add: trackScroll_twice)
qed

section \<open>Device detection\<close>

text \<open>
  The pattern test says what it should: an expression matches a subject exactly when one
  of its words occurs in the subject as a contiguous part, letter case ignored.
\<close>

lemma word_at_iff:
  "word_at p s \<longleftrightarrow> (\<exists>m r. s = m @ r \<and> map lower_char m = map lower_char p)"
proof (induction p s rule: word_at.induct)
  case (1 s)
  show ?case by simp
next
  case (2 p ps)
  show ?case by simp
next
  case (3 p ps c cs)
  show ?case
  proof
    assume "word_at (p # ps) (c # cs)"
    with 3 obtain m r where "cs = m @ r" "map lower_char m = map lower_char ps"
      "lower_char p = lower_char c"
      by auto
    then have "c # cs = (c # m) @ r \<and> map lower_char (c # m) = map lower_char (p # ps)"
      by simp
    then show "\<exists>m r. c # cs = m @ r \<and> map lower_char m = map lower_char (p # ps)"
      by blast
  next
    assume "\<exists>m r. c # cs = m @ r \<and> map lower_char m = map lower_char (p # ps)"
    then obtain m r where mr: "c # cs = m @ r" "map lower_char m = map lower_char (p # ps)"
      by blast
    then obtain m' where m': "m = c # m'" by (cases m) auto
    with mr have "cs = m' @ r" "map lower_char m' = map lower_char ps"
      "lower_char p = lower_char c"
      by auto
    with 3 show "word_at (p # ps) (c # cs)" by auto
  qed
qed

lemma regex_test_iff:
  "regex_test alts s \<longleftrightarrow>
     (\<exists>p\<in>set alts. \<exists>l m r. s = l @ m @ r \<and> map lower_char m = map lower_char p)"
proof (induction s)
  case Nil
  show ?case by (auto simp: list_ex_iff word_at_iff)
next
  case (Cons c cs)
  show ?case
  proof
    assume "regex_test alts (c # cs)"
    then consider "list_ex (\<lambda>p. word_at p (c # cs)) alts" | "regex_test alts cs" by auto
    then show "\<exists>p\<in>set alts. \<exists>l m r. c # cs = l @ m @ r \<and> map lower_char m = map lower_char p"
    proof cases
      case 1
      then obtain p m r where "p \<in> set alts" "c # cs = [] @ m @ r"
        "map lower_char m = map lower_char p"
        by (auto simp: list_ex_iff word_at_iff)
      then show ?thesis by blast
    next
      case 2
      with Cons obtain p l m r where "p \<in> set alts" "cs = l @ m @ r"
        "map lower_char m = map lower_char p"
        by blast
      then have "p \<in> set alts" "c # cs = (c # l) @ m @ r" "map lower_char m = map lower_char p"
        by simp_all
      then show ?thesis by blast
    qed
  next
    assume "\<exists>p\<in>set alts. \<exists>l m r. c # cs = l @ m @ r \<and> map lower_char m = map lower_char p"
    then obtain p l m r where p: "p \<in> set alts" "c # cs = l @ m @ r"
      "map lower_char m = map lower_char p"
      by blast
    show "regex_test alts (c # cs)"
    proof (cases l)
      case Nil
      with p have "word_at p (c # cs)" by (auto simp: word_at_iff)
      with p(1) show ?thesis by (auto simp: list_ex_iff)
    next
      case (Cons a l')
      with p have "cs = l' @ m @ r" by simp
      with p \<open>regex_test alts cs \<longleftrightarrow> _\<close> have "regex_test alts cs" by blast
      then show ?thesis by simp
    qed
  qed
qed

text \<open>
  Claim C1.  In a browser, when the user agent matches neither the mobile nor the tablet
  pattern, the viewport width alone decides: below 768 the device is mobile, from 768 up
  to but not including 1024 it is a tablet, and from 1024 on it is a desktop.
\<close>

theorem getDeviceType_by_width:
  assumes "\<not> regex_test mobile_pattern (toLowerCase ua)"
    and "\<not> regex_test tablet_pattern (toLowerCase ua)"
  shows "getDeviceType (Some \<lparr>innerWidth = width, userAgent = ua\<rparr>) =
           (if width < 768 then Mobile else if width < 1024 then Tablet else Desktop)"
  using assms by simp

theorem getDeviceType_by_width_witness:
  "\<not> regex_test mobile_pattern (toLowerCase ''Mozilla/5.0 (X11; Linux x86_64)'') \<and>
   \<not> regex_test tablet_pattern (toLowerCase ''Mozilla/5.0 (X11; Linux x86_64)'') \<and>
   getDeviceType (Some \<lparr>innerWidth = 767, userAgent = ''Mozilla/5.0 (X11; Linux x86_64)''\<rparr>)
     = Mobile \<and>
   getDeviceType (Some \<lparr>innerWidth = 768, userAgent = ''Mozilla/5.0 (X11; Linux x86_64)''\<rparr>)
     = Tablet \<and>
   getDeviceType (Some \<lparr>innerWidth = 1023, userAgent = ''Mozilla/5.0 (X11; Linux x86_64)''\<rparr>)
     = Tablet \<and>
   getDeviceType (Some \<lparr>innerWidth = 1024, userAgent = ''Mozilla/5.0 (X11; Linux x86_64)''\<rparr>)
     = Desktop"
proof -
  have m: "\<not> regex_test mobile_pattern (toLowerCase ''Mozilla/5.0 (X11; Linux x86_64)'')"
    by code_simp
  have t: "\<not> regex_test tablet_pattern (toLowerCase ''Mozilla/5.0 (X11; Linux x86_64)'')"
    by code_simp
  show ?thesis
    using m t getDeviceType_by_width [OF m t, of 767] getDeviceType_by_width [OF m t, of 768]
      getDeviceType_by_width [OF m t, of 1023] getDeviceType_by_width [OF m t, of 1024]
    by simp
qed

text \<open>
  Claim C9.  The user agent is looked at before the width.  Whatever the viewport width,
  also 1024 and more, a user agent that matches the mobile pattern gives mobile, and one
  that matches the tablet pattern but not the mobile pattern gives tablet.
\<close>

theorem getDeviceType_user_agent_first:
  "(regex_test mobile_pattern (toLowerCase ua) \<longrightarrow>
      getDeviceType (Some \<lparr>innerWidth = width, userAgent = ua\<rparr>) = Mobile) \<and>
   (\<not> regex_test mobile_pattern (toLowerCase ua) \<and> regex_test tablet_pattern (toLowerCase ua) \<longrightarrow>
      getDeviceType (Some \<lparr>innerWidth = width, userAgent = ua\<rparr>) = Tablet)"
  by simp

theorem getDeviceType_user_agent_first_witness:
  "regex_test mobile_pattern (toLowerCase ''Mozilla/5.0 (Linux; Android 14) Chrome/120'') \<and>
   getDeviceType
     (Some \<lparr>innerWidth = 1920, userAgent = ''Mozilla/5.0 (Linux; Android 14) Chrome/120''\<rparr>)
     = Mobile \<and>
   \<not> regex_test mobile_pattern (toLowerCase ''Mozilla/5.0 (iPad; CPU OS 16_0) Safari'') \<and>
   regex_test tablet_pattern (toLowerCase ''Mozilla/5.0 (iPad; CPU OS 16_0) Safari'') \<and>
   getDeviceType
     (Some \<lparr>innerWidth = 320, userAgent = ''Mozilla/5.0 (iPad; CPU OS 16_0) Safari''\<rparr>)
     = Tablet \<and>
   getDeviceType
     (Some \<lparr>innerWidth = 1366, userAgent = ''Mozilla/5.0 (iPad; CPU OS 16_0) Safari''\<rparr>)
     = Tablet"
proof -
  have a: "regex_test mobile_pattern (toLowerCase ''Mozilla/5.0 (Linux; Android 14) Chrome/120'')"
    by code_simp
  have m: "\<not> regex_test mobile_pattern (toLowerCase ''Mozilla/5.0 (iPad; CPU OS 16_0) Safari'')"
    by code_simp
  have t: "regex_test tablet_pattern (toLowerCase ''Mozilla/5.0 (iPad; CPU OS 16_0) Safari'')"
    by code_simp
  show ?thesis
    using a m t
      getDeviceType_user_agent_first [of "''Mozilla/5.0 (Linux; Android 14) Chrome/120''" 1920]
      getDeviceType_user_agent_first [of "''Mozilla/5.0 (iPad; CPU OS 16_0) Safari''" 320]
      getDeviceType_user_agent_first [of "''Mozilla/5.0 (iPad; CPU OS 16_0) Safari''" 1366]
    by blast
qed

section \<open>Sending events\<close>

lemma spread_plain: "spread (map (\<lambda>kv. (fst kv, Data (snd kv))) ps) = Inr ps"
  by (induction ps) auto

text \<open>
  \<open>trackEvent\<close> can throw to its caller.  On a page, a bag with a property whose getter
  throws makes the spread throw, outside the \<open>try\<close>, and the page is left as it was.
  Where there is no \<open>window\<close>, the call throws a \<open>ReferenceError\<close> even without
  properties.
\<close>

theorem trackEvent_call_throws:
  "trackEvent_call ''signup''
     (Some [(''plan'', Data (JStr ''pro'')), (''user'', ThrowingGetter (JsError ''getter failed''))])
     (Some (page_load (Some (\<lambda>a b c. None)) ''2024-05-01T10:00:00.000Z'' [])) =
   Raised (JsError ''getter failed'')
     (Some (page_load (Some (\<lambda>a b c. None)) ''2024-05-01T10:00:00.000Z'' [])) \<and>
   trackEvent_call ''signup'' None None = Raised no_window None"
  by (simp add: trackEvent_call_def read_properties_def)

text \<open>
  Claim C7, as the code has it.  On a page in a browser, for every event name and every
  properties argument that is absent or whose properties can be read without an exception,
  \<open>trackEvent\<close> returns to its caller, in every state of the page.  When
  \<open>window.gtag\<close> is defined and its call throws, the error is caught and given to
  \<open>console.error\<close>, and nothing else happens.
\<close>

theorem trackEvent_call_on_page_never_throws:
  assumes "read_properties properties = Inr bag"
  shows "(\<exists>w'. trackEvent_call eventName properties (Some w) = Returned w') \<and>
   (\<forall>g e. gtag w = Some g \<and>
           g ''event'' eventName (enrichedProperties bag (clock w)) = Some e \<longrightarrow>
      trackEvent_call eventName properties (Some w) =
        Returned (w\<lparr>gtag_calls := gtag_calls w @
                      [(''event'', eventName, enrichedProperties bag (clock w))],
                    console_errors := console_errors w @ [e]\<rparr>))"
  using assms by (simp add: trackEvent_call_def trackEvent_eq split: option.splits)

theorem trackEvent_call_on_page_never_throws_witness:
  "read_properties (Some [(''plan'', Data (JStr ''pro''))]) = Inr (Some [(''plan'', JStr ''pro'')]) \<and>
   gtag (page_load (Some (\<lambda>a b c. Some (JsError ''quota''))) ''2024-05-01T10:00:00.000Z'' [])
     \<noteq> None \<and>
   trackEvent_call ''signup'' (Some [(''plan'', Data (JStr ''pro''))])
     (Some (page_load (Some (\<lambda>a b c. Some (JsError ''quota'')))
              ''2024-05-01T10:00:00.000Z'' [])) =
   Returned
     ((page_load (Some (\<lambda>a b c. Some (JsError ''quota''))) ''2024-05-01T10:00:00.000Z'' [])
        \<lparr>gtag_calls :=
           [(''event'', ''signup'',
             [(''plan'', JStr ''pro''), (''timestamp'', JStr ''2024-05-01T10:00:00.000Z'')])],
         console_errors := [JsError ''quota'']\<rparr>)"
proof -
  have r: "read_properties (Some [(''plan'', Data (JStr ''pro''))]) =
             Inr (Some [(''plan'', JStr ''pro'')])"
    by (simp add: read_properties_def)
  from trackEvent_call_on_page_never_throws [OF r, of "''signup''"
      "page_load (Some (\<lambda>a b c. Some (JsError ''quota''))) ''2024-05-01T10:00:00.000Z'' []"]
  show ?thesis using r by (simp add: page_load_def enrichedProperties_def)
qed

text \<open>
  Claim C10.  The properties that \<open>trackEvent\<close> sends agree with the caller's bag on
  every key other than \<open>timestamp\<close>, and carry the time of the call under
  \<open>timestamp\<close>, whatever the caller had put there.  This is so when the event is sent at
  once, and when it is handed to the polling interval and sent by it later.
\<close>

theorem trackEvent_preserves_caller_keys:
  "\<exists>sent.
     (\<forall>k. k \<noteq> ''timestamp'' \<longrightarrow> map_of sent k = map_of ps k) \<and>
     map_of sent ''timestamp'' = Some (JStr (clock w)) \<and>
     (case gtag w of
        Some g \<Rightarrow>
          gtag_calls (after (trackEvent eventName (Some ps) w)) =
            gtag_calls w @ [(''event'', eventName, sent)]
      | None \<Rightarrow>
          gtag_calls (after (trackEvent eventName (Some ps) w)) = gtag_calls w \<and>
          timers (after (trackEvent eventName (Some ps) w)) =
            timers w @ [(next_handle w, Interval 100 0 50 (SendEvent eventName sent))]) \<and>
     (\<forall>w' g. gtag w' = Some g \<longrightarrow>
        gtag_calls (after (run_callback (SendEvent eventName sent) w')) =
          gtag_calls w' @ [(''event'', eventName, sent)])"
  by (rule exI [of _ "enrichedProperties (Some ps) (clock w)"])
    (simp add: trackEvent_eq sendEvent_eq enrichedProperties_def map_of_set_prop
       split: option.splits)

theorem trackEvent_preserves_caller_keys_witness:
  "gtag_calls (after (trackEvent ''cta''
       (Some [(''timestamp'', JNum (Finite 7)), (''cta_position'', JStr ''hero'')])
       (page_load (Some (\<lambda>a b c. None)) ''2024-05-01T10:00:00.000Z'' []))) =
   [(''event'', ''cta'',
     [(''timestamp'', JStr ''2024-05-01T10:00:00.000Z''), (''cta_position'', JStr ''hero'')])]"
  using trackEvent_preserves_caller_keys
    [of "[(''timestamp'', JNum (Finite 7)), (''cta_position'', JStr ''hero'')]"
       "page_load (Some (\<lambda>a b c. None)) ''2024-05-01T10:00:00.000Z'' []" "''cta''"]
  by (simp add: page_load_def trackEvent_eq enrichedProperties_def)

section \<open>Section views\<close>

text \<open>
  Claim C8.  When the document has no element with the given id, \<open>trackSectionView\<close>
  returns at once and the state is the one before the call: no observer is created, no
  event is sent, no module variable changes.
\<close>

theorem trackSectionView_missing_element:
  assumes "sectionId \<notin> set (document_ids w)"
  shows "trackSectionView sectionId eventName w = w \<and>
         step (CallTrackSectionView sectionId eventName) w = w"
  using assms by (simp add: trackSectionView_def)

theorem trackSectionView_missing_element_witness:
  "''pricing'' \<notin> set (document_ids (page_load None ''2024-05-01T10:00:00.000Z'' [''hero''])) \<and>
   trackSectionView ''pricing'' ''LandingPg_Pricing_Viewed''
     (page_load None ''2024-05-01T10:00:00.000Z'' [''hero'']) =
   page_load None ''2024-05-01T10:00:00.000Z'' [''hero'']"
proof -
  have h: "''pricing'' \<notin>
      set (document_ids (page_load None ''2024-05-01T10:00:00.000Z'' [''hero'']))"
    by (simp add: page_load_def)
  from trackSectionView_missing_element [OF h] show ?thesis using h by simp
qed

section \<open>The debounce timer of the scroll tracker\<close>

lemma debounce_inv_cong:
  "timers w' = timers w \<Longrightarrow> next_handle w' = next_handle w \<Longrightarrow>
   scrollTimeout w' = scrollTimeout w \<Longrightarrow> debounce_inv w' = debounce_inv w"
  by (simp add: debounce_inv_def handles_fresh_def)

lemma debounce_inv_page_load: "debounce_inv (page_load g c ids)"
  by (simp add: debounce_inv_def handles_fresh_def page_load_def)

lemma debounce_inv_trackEvent:
  "debounce_inv w \<Longrightarrow> debounce_inv (after (trackEvent n p w))"
  by (auto simp: debounce_inv_def handles_fresh_def list_all_iff trackEvent_timers
        trackEvent_next_handle trackEvent_frame)

lemma debounce_inv_clear_timer:
  "debounce_inv w \<Longrightarrow> debounce_inv (clear_timer h w)"
  by (auto simp: debounce_inv_def handles_fresh_def list_all_iff clear_timer_def
        distinct_map_filter)

lemma debounce_inv_bump:
  "debounce_inv w \<Longrightarrow> debounce_inv (w\<lparr>timers := map (bump_attempts h) (timers w)\<rparr>)"
  by (auto simp: debounce_inv_def handles_fresh_def list_all_iff fst_bump_attempts
        is_Timeout_bump_attempts comp_def)

lemma debounce_inv_sendEvent:
  "debounce_inv w \<Longrightarrow> debounce_inv (after (sendEvent n ps w))"
  by (simp add: debounce_inv_cong [of "after (sendEvent n ps w)" w] sendEvent_frame)

lemma debounce_inv_disconnect:
  "debounce_inv w \<Longrightarrow> debounce_inv (disconnect oid w)"
  by (simp add: debounce_inv_cong [of "disconnect oid w" w] disconnect_frame)

lemma debounce_inv_forEach:
  "debounce_inv w \<Longrightarrow> debounce_inv (after (forEach_entry oid sid ev es w))"
proof (induction es arbitrary: w)
  case Nil
  then show ?case by simp
next
  case (Cons e es)
  show ?case
    unfolding forEach_entry_Cons
    using Cons.prems
    by (auto intro!: Cons.IH debounce_inv_disconnect debounce_inv_trackEvent)
qed

lemma debounce_inv_timer_fires:
  assumes "debounce_inv w"
  shows "debounce_inv (after (timer_fires h w))"
proof (cases "map_of (timers w) h")
  case None
  with assms show ?thesis by (simp add: timer_fires_def)
next
  case (Some t)
  show ?thesis
  proof (cases t)
    case (Interval d a m cb)
    obtain n ps where cb: "cb = SendEvent n ps" by (cases cb)
    from assms have "debounce_inv (w\<lparr>timers := map (bump_attempts h) (timers w)\<rparr>)"
      by (rule debounce_inv_bump)
    then have "debounce_inv (clear_timer h (w\<lparr>timers := map (bump_attempts h) (timers w)\<rparr>))"
      and "debounce_inv (w\<lparr>timers := map (bump_attempts h) (timers w)\<rparr>)"
      by (simp_all add: debounce_inv_clear_timer)
    then show ?thesis
      using Some Interval cb
      by (simp add: timer_fires_def poll_eq Let_def debounce_inv_sendEvent)
  next
    case (Timeout d p)
    have "debounce_inv (clear_timer h (after (scroll_timeout_handler p w)))"
      unfolding scroll_timeout_handler_def
      by (intro debounce_inv_clear_timer debounce_inv_trackEvent assms)
    then show ?thesis
      using Some Timeout
      by (simp add: timer_fires_def scroll_timeout_handler_def trackEvent_eq)
  qed
qed

lemma debounce_inv_trackScroll:
  assumes "debounce_inv w"
  shows "debounce_inv (trackScroll s w)"
proof (cases "js_gt (scrollPercent s) (maxScrollDepth w)")
  case False
  with assms show ?thesis by (simp add: trackScroll_eq)
next
  case True
  show ?thesis
  proof (cases "scrollTimeout w")
    case None
    with assms True show ?thesis
      by (auto simp: trackScroll_eq debounce_inv_def handles_fresh_def list_all_iff)
  next
    case (Some k)
    with assms True show ?thesis
      by (auto simp: trackScroll_eq debounce_inv_def handles_fresh_def list_all_iff
            distinct_map_filter)
  qed
qed

lemma debounce_inv_step: "debounce_inv w \<Longrightarrow> debounce_inv (step e w)"
proof (cases e)
  case (ScrollEvent s)
  assume "debounce_inv w"
  then show ?thesis
    using ScrollEvent by (simp add: trackScroll_funpow debounce_inv_trackScroll)
next
  case (TimerFires h)
  assume "debounce_inv w"
  then show ?thesis using TimerFires by (simp add: debounce_inv_timer_fires)
next
  case (ObserverNotifies oid entries)
  assume "debounce_inv w"
  then show ?thesis
    using ObserverNotifies
    by (simp add: observer_notifies_def debounce_inv_forEach split: option.splits)
next
  case (CallTrackEvent n p)
  assume "debounce_inv w"
  then show ?thesis using CallTrackEvent by (simp add: debounce_inv_trackEvent)
next
  case (CallTrackCTAClick pos)
  assume "debounce_inv w"
  then show ?thesis
    using CallTrackCTAClick by (simp add: trackCTAClick_def debounce_inv_trackEvent)
next
  case CallInitScrollTracking
  assume "debounce_inv w"
  then show ?thesis
    using CallInitScrollTracking
    by (simp add: initScrollTracking_def debounce_inv_def handles_fresh_def)
next
  case (CallTrackSectionView sid ev)
  assume "debounce_inv w"
  then show ?thesis
    using CallTrackSectionView
    by (simp add: trackSectionView_def debounce_inv_def handles_fresh_def)
next
  case (GtagBecomes g)
  assume "debounce_inv w"
  then show ?thesis using GtagBecomes by (simp add: debounce_inv_def handles_fresh_def)
next
  case (ClockBecomes c)
  assume "debounce_inv w"
  then show ?thesis using ClockBecomes by (simp add: debounce_inv_def handles_fresh_def)
next
  case (DocumentBecomes ids)
  assume "debounce_inv w"
  then show ?thesis using DocumentBecomes by (simp add: debounce_inv_def handles_fresh_def)
qed

lemma debounce_inv_run: "debounce_inv w \<Longrightarrow> debounce_inv (run w evs)"
  by (induction evs arbitrary: w) (simp_all add: debounce_inv_step)

lemma same_key_short:
  "distinct (map fst xs) \<Longrightarrow> \<forall>x\<in>set xs. fst x = k \<Longrightarrow> length xs \<le> 1"
proof (cases xs)
  case Nil
  then show ?thesis by simp
next
  case (Cons x ys)
  assume d: "distinct (map fst xs)" and k: "\<forall>x\<in>set xs. fst x = k"
  show ?thesis
  proof (cases ys)
    case Nil
    with Cons show ?thesis by simp
  next
    case (Cons y zs)
    with \<open>xs = x # ys\<close> d k show ?thesis by auto
  qed
qed

lemma debounce_inv_single:
  assumes "debounce_inv w"
  shows "length (pending_debounce w) \<le> 1"
proof (cases "scrollTimeout w")
  case None
  with assms have "pending_debounce w = []"
    by (auto simp: pending_debounce_def debounce_inv_def list_all_iff filter_empty_conv)
  then show ?thesis by simp
next
  case (Some k)
  from assms have "distinct (map fst (pending_debounce w))"
    by (simp add: pending_debounce_def debounce_inv_def distinct_map_filter)
  moreover from assms Some have "\<forall>x\<in>set (pending_debounce w). fst x = k"
    by (auto simp: pending_debounce_def debounce_inv_def list_all_iff)
  ultimately show ?thesis by (rule same_key_short)
qed

lemma trackScroll_replaces:
  assumes "debounce_inv w" and "js_gt (scrollPercent s) (maxScrollDepth w)"
  shows "pending_debounce (trackScroll s w) = [(next_handle w, Timeout 500 (scrollPercent s))]"
proof (cases "scrollTimeout w")
  case None
  with assms show ?thesis
    by (auto simp: trackScroll_eq pending_debounce_def debounce_inv_def list_all_iff
          filter_empty_conv)
next
  case (Some k)
  with assms show ?thesis
    by (auto simp: trackScroll_eq pending_debounce_def debounce_inv_def list_all_iff
          filter_empty_conv)
qed

text \<open>
  A scroll event does not always reset the debounce timer.  On a page scrolled to 50 percent,
  with the timeout of that sample pending under handle 1, a scroll event at 30 percent changes
  nothing at all: the pending timer is neither cancelled nor replaced.
\<close>

theorem scroll_event_keeps_pending_timer:
  "pending_debounce
     (run (page_load None ''2024-05-01T10:00:00.000Z'' [])
        [CallInitScrollTracking,
         ScrollEvent \<lparr>innerHeight = 800, scrollHeight = 2800, scrollY = 1000, scrollTop = 1000\<rparr>])
     = [(1, Timeout 500 (Finite 50))] \<and>
   step (ScrollEvent \<lparr>innerHeight = 800, scrollHeight = 2800, scrollY = 600, scrollTop = 600\<rparr>)
     (run (page_load None ''2024-05-01T10:00:00.000Z'' [])
        [CallInitScrollTracking,
         ScrollEvent \<lparr>innerHeight = 800, scrollHeight = 2800, scrollY = 1000, scrollTop = 1000\<rparr>])
     = run (page_load None ''2024-05-01T10:00:00.000Z'' [])
        [CallInitScrollTracking,
         ScrollEvent \<lparr>innerHeight = 800, scrollHeight = 2800, scrollY = 1000, scrollTop = 1000\<rparr>]"
proof -
  have p: "scrollPercent \<lparr>innerHeight = 800, scrollHeight = 2800, scrollY = 1000, scrollTop = 1000\<rparr>
             = Finite 50"
    by code_simp
  have q: "scrollPercent \<lparr>innerHeight = 800, scrollHeight = 2800, scrollY = 600, scrollTop = 600\<rparr>
             = Finite 30"
    by code_simp
  show ?thesis
    by (simp add: page_load_def initScrollTracking_def trackScroll_eq p q pending_debounce_def)
qed

text \<open>
  Claim C6, as the code has it.  In every state a page can reach, at most one debounce
  timeout is pending.  A scroll event whose percentage strictly exceeds the recorded maximum
  cancels the pending timeout, if there is one, and schedules a fresh one, which is then the
  only one pending; a scroll event whose percentage does not exceed the maximum leaves the
  state, and with it a pending timeout, as it is.
\<close>

theorem single_debounce_timer:
  fixes g stamp ids evs s
  defines "w \<equiv> run (page_load g stamp ids) evs"
  shows "length (pending_debounce w) \<le> 1 \<and>
         (0 < scroll_listeners w \<and> js_gt (scrollPercent s) (maxScrollDepth w) \<longrightarrow>
            pending_debounce (step (ScrollEvent s) w) =
              [(next_handle w, Timeout 500 (scrollPercent s))] \<and>
            next_handle w \<notin> fst ` set (timers w)) \<and>
         (\<not> js_gt (scrollPercent s) (maxScrollDepth w) \<longrightarrow> step (ScrollEvent s) w = w)"
proof -
  have inv: "debounce_inv w"
    unfolding w_def by (intro debounce_inv_run debounce_inv_page_load)
  have fresh: "next_handle w \<notin> fst ` set (timers w)"
    using inv by (auto simp: debounce_inv_def handles_fresh_def list_all_iff)
  have one: "length (pending_debounce w) \<le> 1"
    using inv by (rule debounce_inv_single)
  have up: "pending_debounce (step (ScrollEvent s) w) =
              [(next_handle w, Timeout 500 (scrollPercent s))]"
    if "0 < scroll_listeners w" and "js_gt (scrollPercent s) (maxScrollDepth w)"
    using that inv by (simp add: trackScroll_funpow trackScroll_replaces)
  have same: "step (ScrollEvent s) w = w" if "\<not> js_gt (scrollPercent s) (maxScrollDepth w)"
    using that by (simp add: trackScroll_funpow trackScroll_eq)
  from one up same fresh show ?thesis by blast
qed

theorem single_debounce_timer_witness:
  "0 < scroll_listeners
         (run (page_load None ''2024-05-01T10:00:00.000Z'' [])
            [CallInitScrollTracking,
             ScrollEvent \<lparr>innerHeight = 800, scrollHeight = 2800, scrollY = 1000, scrollTop = 1000\<rparr>]) \<and>
   js_gt (scrollPercent \<lparr>innerHeight = 800, scrollHeight = 2800, scrollY = 1600, scrollTop = 1600\<rparr>)
     (maxScrollDepth
         (run (page_load None ''2024-05-01T10:00:00.000Z'' [])
            [CallInitScrollTracking,
             ScrollEvent \<lparr>innerHeight = 800, scrollHeight = 2800, scrollY = 1000, scrollTop = 1000\<rparr>])) \<and>
   pending_debounce
     (step (ScrollEvent \<lparr>innerHeight = 800, scrollHeight = 2800, scrollY = 1600, scrollTop = 1600\<rparr>)
        (run (page_load None ''2024-05-01T10:00:00.000Z'' [])
           [CallInitScrollTracking,
            ScrollEvent \<lparr>innerHeight = 800, scrollHeight = 2800, scrollY = 1000, scrollTop = 1000\<rparr>]))
     = [(2, Timeout 500 (Finite 80))]"
proof -
  have a: "0 < scroll_listeners
         (run (page_load None ''2024-05-01T10:00:00.000Z'' [])
            [CallInitScrollTracking,
             ScrollEvent \<lparr>innerHeight = 800, scrollHeight = 2800, scrollY = 1000, scrollTop = 1000\<rparr>])"
    by code_simp
  have b: "js_gt (scrollPercent \<lparr>innerHeight = 800, scrollHeight = 2800, scrollY = 1600, scrollTop = 1600\<rparr>)
     (maxScrollDepth
         (run (page_load None ''2024-05-01T10:00:00.000Z'' [])
            [CallInitScrollTracking,
             ScrollEvent \<lparr>innerHeight = 800, scrollHeight = 2800, scrollY = 1000, scrollTop = 1000\<rparr>]))"
    by code_simp
  have c: "next_handle
         (run (page_load None ''2024-05-01T10:00:00.000Z'' [])
            [CallInitScrollTracking,
             ScrollEvent \<lparr>innerHeight = 800, scrollHeight = 2800, scrollY = 1000, scrollTop = 1000\<rparr>]) = 2"
    by code_simp
  have d: "scrollPercent \<lparr>innerHeight = 800, scrollHeight = 2800, scrollY = 1600, scrollTop = 1600\<rparr>
             = Finite 80"
    by code_simp
  from single_debounce_timer
    [of None "''2024-05-01T10:00:00.000Z''" "[]"
        "[CallInitScrollTracking,
          ScrollEvent \<lparr>innerHeight = 800, scrollHeight = 2800, scrollY = 1000, scrollTop = 1000\<rparr>]"
        "\<lparr>innerHeight = 800, scrollHeight = 2800, scrollY = 1600, scrollTop = 1600\<rparr>"]
  show ?thesis using a b c d by simp
qed

section \<open>Scroll emissions\<close>

lemma run_append: "run w (xs @ ys) = run (run w xs) ys"
  by (induction xs arbitrary: w) simp_all

lemma run_snoc: "run w (evs @ [e]) = step e (run w evs)"
  by (simp add: run_append)

lemma bump_attempts_Timeout:
  "bump_attempts h kt = (k, Timeout d p) \<longleftrightarrow> kt = (k, Timeout d p)"
  by (cases "(h, kt)" rule: bump_attempts.cases) auto

lemma pending_debounce_bump:
  "pending_debounce (w\<lparr>timers := map (bump_attempts h) (timers w)\<rparr>) = pending_debounce w"
proof -
  have "filter (\<lambda>kt. is_Timeout (snd kt)) (map (bump_attempts h) ts) =
        filter (\<lambda>kt. is_Timeout (snd kt)) ts" for ts
  proof (induction ts)
    case Nil
    show ?case by simp
  next
    case (Cons a ts)
    obtain k t where a: "a = (k, t)" by (cases a)
    show ?case using Cons a by (cases t) simp_all
  qed
  then show ?thesis by (simp add: pending_debounce_def)
qed

lemma pending_debounce_trackEvent:
  "pending_debounce (after (trackEvent n p w)) = pending_debounce w"
  by (simp add: pending_debounce_def trackEvent_timers)

lemma pending_debounce_sendEvent:
  "pending_debounce (after (sendEvent n ps w)) = pending_debounce w"
  by (simp add: pending_debounce_def sendEvent_frame)

lemma pending_debounce_disconnect:
  "pending_debounce (disconnect oid w) = pending_debounce w"
  by (simp add: pending_debounce_def disconnect_frame)

lemma pending_debounce_clear_timer:
  "set (pending_debounce (clear_timer h w)) \<subseteq> set (pending_debounce w)"
  by (auto simp: pending_debounce_def clear_timer_def)

lemma pending_debounce_forEach:
  "pending_debounce (after (forEach_entry oid sid ev es w)) = pending_debounce w"
proof (induction es arbitrary: w)
  case Nil
  show ?case by simp
next
  case (Cons e es)
  show ?case
    unfolding forEach_entry_Cons
    by (simp add: Cons.IH pending_debounce_disconnect pending_debounce_trackEvent)
qed

lemma pending_debounce_timer_fires:
  "set (pending_debounce (after (timer_fires h w))) \<subseteq> set (pending_debounce w)"
proof (cases "map_of (timers w) h")
  case None
  then show ?thesis by (simp add: timer_fires_def)
next
  case (Some t)
  show ?thesis
  proof (cases t)
    case (Interval d a m cb)
    obtain n ps where cb: "cb = SendEvent n ps" by (cases cb)
    have "set (pending_debounce (clear_timer h (w\<lparr>timers := map (bump_attempts h) (timers w)\<rparr>)))
            \<subseteq> set (pending_debounce w)"
      using pending_debounce_clear_timer [of h "w\<lparr>timers := map (bump_attempts h) (timers w)\<rparr>"]
      by (simp add: pending_debounce_bump)
    then show ?thesis
      using Some Interval cb
      by (simp add: timer_fires_def poll_eq Let_def pending_debounce_sendEvent
            pending_debounce_bump)
  next
    case (Timeout d p)
    have "set (pending_debounce (clear_timer h (after (scroll_timeout_handler p w))))
            \<subseteq> set (pending_debounce w)"
      using pending_debounce_clear_timer [of h "after (scroll_timeout_handler p w)"]
      by (simp add: scroll_timeout_handler_def pending_debounce_trackEvent)
    then show ?thesis
      using Some Timeout
      by (simp add: timer_fires_def scroll_timeout_handler_def trackEvent_eq)
  qed
qed

lemma pending_debounce_trackScroll:
  "set (pending_debounce (trackScroll s w)) \<subseteq>
     set (pending_debounce w) \<union>
     (if js_gt (scrollPercent s) (maxScrollDepth w)
      then {(next_handle w, Timeout 500 (scrollPercent s))} else {})"
  by (auto simp: trackScroll_eq pending_debounce_def)

lemma pending_debounce_step:
  assumes "kt \<in> set (pending_debounce (step e w))"
  shows "kt \<in> set (pending_debounce w) \<or>
         (\<exists>s. e = ScrollEvent s \<and> js_gt (scrollPercent s) (maxScrollDepth w) \<and>
              kt = (next_handle w, Timeout 500 (scrollPercent s)))"
proof (cases e)
  case (ScrollEvent s)
  with assms pending_debounce_trackScroll [of s w] show ?thesis
    by (auto simp: trackScroll_funpow split: if_splits)
next
  case (TimerFires h)
  with assms pending_debounce_timer_fires [of h w] show ?thesis by auto
next
  case (ObserverNotifies oid entries)
  with assms show ?thesis
    by (simp add: observer_notifies_def pending_debounce_forEach split: option.splits if_splits)
next
  case (CallTrackEvent n p)
  with assms show ?thesis by (simp add: pending_debounce_trackEvent)
next
  case (CallTrackCTAClick pos)
  with assms show ?thesis by (simp add: trackCTAClick_def pending_debounce_trackEvent)
next
  case CallInitScrollTracking
  with assms show ?thesis by (simp add: initScrollTracking_def pending_debounce_def)
next
  case (CallTrackSectionView sid ev)
  with assms show ?thesis
    by (simp add: trackSectionView_def pending_debounce_def split: if_splits)
next
  case (GtagBecomes g)
  with assms show ?thesis by (simp add: pending_debounce_def)
next
  case (ClockBecomes c)
  with assms show ?thesis by (simp add: pending_debounce_def)
next
  case (DocumentBecomes ids)
  with assms show ?thesis by (simp add: pending_debounce_def)
qed

lemma pending_debounce_justified:
  assumes "pending_debounce w0 = []"
    and "(k, Timeout d p) \<in> set (pending_debounce (run w0 evs))"
  shows "\<exists>j<length evs. \<exists>s. evs ! j = ScrollEvent s \<and> scrollPercent s = p \<and>
           js_gt p (maxScrollDepth (run w0 (take j evs)))"
  using assms(2)
proof (induction evs arbitrary: k d p rule: rev_induct)
  case Nil
  with assms(1) show ?case by simp
next
  case (snoc e evs)
  from snoc.prems have "(k, Timeout d p) \<in> set (pending_debounce (step e (run w0 evs)))"
    by (simp add: run_snoc)
  then consider (old) "(k, Timeout d p) \<in> set (pending_debounce (run w0 evs))"
    | (new) s where "e = ScrollEvent s" "js_gt (scrollPercent s) (maxScrollDepth (run w0 evs))"
        "p = scrollPercent s"
    using pending_debounce_step [of "(k, Timeout d p)" e "run w0 evs"] by auto
  then show ?case
  proof cases
    case old
    from snoc.IH [OF old] obtain j s where j: "j < length evs" "evs ! j = ScrollEvent s"
      "scrollPercent s = p" "js_gt p (maxScrollDepth (run w0 (take j evs)))"
      by blast
    then have "j < length (evs @ [e])" "(evs @ [e]) ! j = ScrollEvent s"
      "js_gt p (maxScrollDepth (run w0 (take j (evs @ [e]))))"
      by (simp_all add: nth_append)
    with j(3) show ?thesis by blast
  next
    case new
    have "length evs < length (evs @ [e])" "(evs @ [e]) ! length evs = ScrollEvent s"
      "js_gt p (maxScrollDepth (run w0 (take (length evs) (evs @ [e]))))"
      using new by simp_all
    with new(3) show ?thesis by blast
  qed
qed

lemma timeout_at_pending:
  assumes "timeout_at h w = Some p"
  shows "\<exists>d. (h, Timeout d p) \<in> set (pending_debounce w)"
proof -
  from assms obtain d where "map_of (timers w) h = Some (Timeout d p)"
    by (auto simp: timeout_at_def split: option.splits timer.splits)
  then have "(h, Timeout d p) \<in> set (timers w)" by (rule map_of_SomeD)
  then show ?thesis by (auto simp: pending_debounce_def)
qed

text \<open>
  Claim C3.  The scroll tracker emits \<open>LandingPg_Scroll\<close> in one place, the handler of
  its debounce timeout.  In every run of a page, whenever that handler runs, with the
  percentage \<open>p\<close> it captured, an earlier scroll event of the run computed \<open>p\<close> and
  \<open>p\<close> was then strictly greater than the recorded maximum.  A scroll event whose
  percentage is not strictly greater than the recorded maximum changes nothing, so it
  schedules no timeout and leads to no emission.
\<close>

theorem scroll_emission_only_on_increase:
  fixes g stamp ids evs
  defines "w0 \<equiv> page_load g stamp ids"
  shows "(\<forall>i h p. i < length evs \<and> evs ! i = TimerFires h \<and>
                  timeout_at h (run w0 (take i evs)) = Some p \<longrightarrow>
            step (evs ! i) (run w0 (take i evs)) =
              clear_timer h
                (after (trackEvent ''LandingPg_Scroll''
                   (Some [(''scroll_depth'', JNum p), (''scroll_depth_percent'', JTemplate p ''%'')])
                   (run w0 (take i evs)))) \<and>
            (\<exists>j<i. \<exists>s. evs ! j = ScrollEvent s \<and> scrollPercent s = p \<and>
               js_gt p (maxScrollDepth (run w0 (take j evs))))) \<and>
         (\<forall>w s. \<not> js_gt (scrollPercent s) (maxScrollDepth w) \<longrightarrow> step (ScrollEvent s) w = w)"
proof (intro conjI allI impI)
  fix i h p
  assume a: "i < length evs \<and> evs ! i = TimerFires h \<and>
             timeout_at h (run w0 (take i evs)) = Some p"
  then obtain d where d: "map_of (timers (run w0 (take i evs))) h = Some (Timeout d p)"
    by (auto simp: timeout_at_def split: option.splits timer.splits)
  with a show "step (evs ! i) (run w0 (take i evs)) =
              clear_timer h
                (after (trackEvent ''LandingPg_Scroll''
                   (Some [(''scroll_depth'', JNum p), (''scroll_depth_percent'', JTemplate p ''%'')])
                   (run w0 (take i evs))))"
    by (simp add: timer_fires_def scroll_timeout_handler_def trackEvent_eq)
  from a timeout_at_pending obtain d'
    where "(h, Timeout d' p) \<in> set (pending_debounce (run w0 (take i evs)))"
    by blast
  moreover have "pending_debounce w0 = []"
    by (simp add: w0_def page_load_def pending_debounce_def)
  ultimately obtain j s where j: "j < length (take i evs)" "take i evs ! j = ScrollEvent s"
    "scrollPercent s = p" "js_gt p (maxScrollDepth (run w0 (take j (take i evs))))"
    using pending_debounce_justified [of w0 h d' p "take i evs"] by blast
  from j(1) a have ji: "j < i" by simp
  with j have "evs ! j = ScrollEvent s" "js_gt p (maxScrollDepth (run w0 (take j evs)))"
    by (simp_all add: min_def)
  with ji j(3) show "\<exists>j<i. \<exists>s. evs ! j = ScrollEvent s \<and> scrollPercent s = p \<and>
               js_gt p (maxScrollDepth (run w0 (take j evs)))"
    by blast
next
  fix w :: world and s :: scroll_sample
  assume "\<not> js_gt (scrollPercent s) (maxScrollDepth w)"
  then show "step (ScrollEvent s) w = w"
    by (simp add: trackScroll_funpow trackScroll_eq)
qed

theorem scroll_emission_only_on_increase_witness:
  "timeout_at 1
     (run (page_load None ''2024-05-01T10:00:00.000Z'' [])
        (take 2 [CallInitScrollTracking,
           ScrollEvent \<lparr>innerHeight = 800, scrollHeight = 2800, scrollY = 1000, scrollTop = 1000\<rparr>,
           TimerFires 1])) = Some (Finite 50) \<and>
   (\<exists>j<2. \<exists>s.
      [CallInitScrollTracking,
       ScrollEvent \<lparr>innerHeight = 800, scrollHeight = 2800, scrollY = 1000, scrollTop = 1000\<rparr>,
       TimerFires 1] ! j = ScrollEvent s \<and>
      scrollPercent s = Finite 50 \<and>
      js_gt (Finite 50)
        (maxScrollDepth
           (run (page_load None ''2024-05-01T10:00:00.000Z'' [])
              (take j [CallInitScrollTracking,
                 ScrollEvent \<lparr>innerHeight = 800, scrollHeight = 2800, scrollY = 1000, scrollTop = 1000\<rparr>,
                 TimerFires 1]))))"
proof -
  have a: "timeout_at 1
     (run (page_load None ''2024-05-01T10:00:00.000Z'' [])
        (take 2 [CallInitScrollTracking,
           ScrollEvent \<lparr>innerHeight = 800, scrollHeight = 2800, scrollY = 1000, scrollTop = 1000\<rparr>,
           TimerFires 1])) = Some (Finite 50)"
    by code_simp
  from scroll_emission_only_on_increase
    [of "[CallInitScrollTracking,
          ScrollEvent \<lparr>innerHeight = 800, scrollHeight = 2800, scrollY = 1000, scrollTop = 1000\<rparr>,
          TimerFires 1]" None "''2024-05-01T10:00:00.000Z''" "[]",
     THEN conjunct1, rule_format, of 2 1 "Finite 50"] a
  show ?thesis by simp
qed

section \<open>The polling interval of \<open>waitForGtag\<close>\<close>

lemma map_of_bump_other:
  "k \<noteq> h \<Longrightarrow> map_of (map (bump_attempts h) ts) k = map_of ts k"
proof (induction ts)
  case Nil
  show ?case by simp
next
  case (Cons a ts)
  obtain k' t where a: "a = (k', t)" by (cases a)
  show ?case using Cons a by (cases t) simp_all
qed

lemma map_of_bump_self:
  "map_of (map (bump_attempts h) ts) h =
     (case map_of ts h of
        None \<Rightarrow> None
      | Some (Interval d a m cb) \<Rightarrow> Some (Interval d (a + 1) m cb)
      | Some (Timeout d p) \<Rightarrow> Some (Timeout d p))"
proof (induction ts)
  case Nil
  show ?case by simp
next
  case (Cons a ts)
  obtain k' t where a: "a = (k', t)" by (cases a)
  show ?case using Cons a by (cases t) simp_all
qed

lemma map_of_clear:
  "map_of (filter (\<lambda>kt. fst kt \<noteq> h) ts) k = (if k = h then None else map_of ts k)"
  by (induction ts) auto

lemma map_of_snoc_other:
  "k \<noteq> nh \<Longrightarrow> map_of (ts @ [(nh, t)]) k = map_of ts k"
  by (simp add: map_add_def split: option.splits)

lemma kept_refl: "handles_fresh w \<Longrightarrow> kept h w w"
  by (simp add: kept_def)

lemma kept_trans: "kept h w w' \<Longrightarrow> kept h w' w'' \<Longrightarrow> kept h w w''"
  by (auto simp: kept_def)

lemma kept_same:
  "handles_fresh w \<Longrightarrow> timers w' = timers w \<Longrightarrow> next_handle w' = next_handle w \<Longrightarrow> kept h w w'"
  by (simp add: kept_def handles_fresh_def)

lemma kept_trackEvent:
  "handles_fresh w \<Longrightarrow> h < next_handle w \<Longrightarrow> kept h w (after (trackEvent n p w))"
  by (auto simp: kept_def handles_fresh_def list_all_iff trackEvent_timers
        trackEvent_next_handle map_of_snoc_other)

lemma kept_clear_timer: "handles_fresh w \<Longrightarrow> kept h w (clear_timer k w)"
  by (auto simp: kept_def handles_fresh_def list_all_iff clear_timer_def map_of_clear)

lemma kept_bump_other:
  "handles_fresh w \<Longrightarrow> k \<noteq> h \<Longrightarrow>
   kept h w (w\<lparr>timers := map (bump_attempts k) (timers w)\<rparr>)"
  by (auto simp: kept_def handles_fresh_def list_all_iff map_of_bump_other fst_bump_attempts)

lemma kept_forEach:
  "handles_fresh w \<Longrightarrow> h < next_handle w \<Longrightarrow>
   kept h w (after (forEach_entry oid sid ev es w))"
proof (induction es arbitrary: w)
  case Nil
  then show ?case by (simp add: kept_refl)
next
  case (Cons e es)
  show ?case
  proof (cases "isIntersecting e")
    case False
    with Cons show ?thesis by (simp add: forEach_entry_Cons)
  next
    case True
    let ?w1 = "after (trackEvent ev (Some [(''section_id'', JStr sid)]) w)"
    let ?w2 = "disconnect oid ?w1"
    have k1: "kept h w ?w1" using Cons.prems by (rule kept_trackEvent)
    then have "kept h ?w1 ?w2"
      by (intro kept_same) (simp_all add: kept_def disconnect_frame)
    with k1 have k2: "kept h w ?w2" by (rule kept_trans)
    then have "handles_fresh ?w2" "h < next_handle ?w2"
      using Cons.prems by (simp_all add: kept_def)
    then have "kept h ?w2 (after (forEach_entry oid sid ev es ?w2))" by (rule Cons.IH)
    with k2 have "kept h w (after (forEach_entry oid sid ev es ?w2))" by (rule kept_trans)
    then show ?thesis using True by (simp only: forEach_entry_Cons if_True)
  qed
qed

lemma kept_trackScroll:
  "handles_fresh w \<Longrightarrow> h < next_handle w \<Longrightarrow> kept h w (trackScroll s w)"
  by (auto simp: kept_def handles_fresh_def list_all_iff trackScroll_eq map_of_snoc_other
        map_of_clear)

lemma kept_timer_fires_other:
  assumes "handles_fresh w" and "h < next_handle w" and "k \<noteq> h"
  shows "kept h w (after (timer_fires k w))"
proof (cases "map_of (timers w) k")
  case None
  with assms show ?thesis by (simp add: timer_fires_def kept_refl)
next
  case (Some t)
  show ?thesis
  proof (cases t)
    case (Interval d a m cb)
    obtain n ps where cb: "cb = SendEvent n ps" by (cases cb)
    let ?w1 = "w\<lparr>timers := map (bump_attempts k) (timers w)\<rparr>"
    have k1: "kept h w ?w1" using assms by (simp add: kept_bump_other)
    then have "handles_fresh ?w1" by (simp add: kept_def)
    then have "kept h ?w1 (clear_timer k ?w1)" by (rule kept_clear_timer)
    with k1 have k2: "kept h w (clear_timer k ?w1)" by (rule kept_trans)
    then have "kept h (clear_timer k ?w1) (after (sendEvent n ps (clear_timer k ?w1)))"
      by (intro kept_same) (simp_all add: kept_def sendEvent_frame)
    with k2 have "kept h w (after (sendEvent n ps (clear_timer k ?w1)))" by (rule kept_trans)
    with k1 k2 show ?thesis
      using Some Interval cb by (simp add: timer_fires_def poll_eq Let_def)
  next
    case (Timeout d p)
    let ?w1 = "after (scroll_timeout_handler p w)"
    have k1: "kept h w ?w1"
      unfolding scroll_timeout_handler_def using assms by (simp add: kept_trackEvent)
    then have "handles_fresh ?w1" by (simp add: kept_def)
    then have "kept h ?w1 (clear_timer k ?w1)" by (rule kept_clear_timer)
    with k1 have "kept h w (clear_timer k ?w1)" by (rule kept_trans)
    then show ?thesis
      using Some Timeout
      by (simp add: timer_fires_def scroll_timeout_handler_def trackEvent_eq)
  qed
qed

lemma kept_timer_fires_idle:
  assumes "handles_fresh w" and "h < next_handle w" and "\<not> interval_at h w"
  shows "kept h w (after (timer_fires h w))"
proof (cases "map_of (timers w) h")
  case None
  with assms show ?thesis by (simp add: timer_fires_def kept_refl)
next
  case (Some t)
  show ?thesis
  proof (cases t)
    case (Interval d a m cb)
    with Some assms(3) show ?thesis by (simp add: interval_at_def)
  next
    case (Timeout d p)
    let ?w1 = "after (scroll_timeout_handler p w)"
    have k1: "kept h w ?w1"
      unfolding scroll_timeout_handler_def using assms by (simp add: kept_trackEvent)
    then have "handles_fresh ?w1" by (simp add: kept_def)
    then have "kept h ?w1 (clear_timer h ?w1)" by (rule kept_clear_timer)
    with k1 have "kept h w (clear_timer h ?w1)" by (rule kept_trans)
    then show ?thesis
      using Some Timeout
      by (simp add: timer_fires_def scroll_timeout_handler_def trackEvent_eq)
  qed
qed

lemma kept_step:
  assumes "handles_fresh w" and "h < next_handle w" and "\<not> (fires h e \<and> interval_at h w)"
  shows "kept h w (step e w)"
proof (cases e)
  case (ScrollEvent s)
  with assms show ?thesis by (simp add: trackScroll_funpow kept_trackScroll kept_refl)
next
  case (TimerFires k)
  with assms show ?thesis
    by (cases "k = h") (simp_all add: kept_timer_fires_other kept_timer_fires_idle)
next
  case (ObserverNotifies oid entries)
  with assms show ?thesis
    by (simp add: observer_notifies_def kept_forEach kept_refl split: option.splits)
next
  case (CallTrackEvent n p)
  with assms show ?thesis by (simp add: kept_trackEvent)
next
  case (CallTrackCTAClick pos)
  with assms show ?thesis by (simp add: trackCTAClick_def kept_trackEvent)
next
  case CallInitScrollTracking
  with assms show ?thesis by (simp add: initScrollTracking_def kept_same)
next
  case (CallTrackSectionView sid ev)
  with assms show ?thesis by (simp add: trackSectionView_def kept_same kept_refl)
next
  case (GtagBecomes g)
  with assms show ?thesis by (simp add: kept_same)
next
  case (ClockBecomes c)
  with assms show ?thesis by (simp add: kept_same)
next
  case (DocumentBecomes ids)
  with assms show ?thesis by (simp add: kept_same)
qed

lemma poll_step:
  assumes "handles_fresh w" and "map_of (timers w) h = Some (Interval d a m cb)"
  shows "handles_fresh (step (TimerFires h) w) \<and>
         next_handle (step (TimerFires h) w) = next_handle w \<and>
         map_of (timers (step (TimerFires h) w)) h =
           (if gtag w = None \<and> a + 1 < m then Some (Interval d (a + 1) m cb) else None)"
proof -
  obtain n ps where cb: "cb = SendEvent n ps" by (cases cb)
  let ?w1 = "w\<lparr>timers := map (bump_attempts h) (timers w)\<rparr>"
  have f1: "handles_fresh ?w1"
    using assms(1) by (simp add: handles_fresh_def list_all_iff fst_bump_attempts)
  then have "kept h ?w1 (clear_timer h ?w1)" by (rule kept_clear_timer)
  then have f2: "handles_fresh (clear_timer h ?w1)" by (simp add: kept_def)
  have m1: "map_of (timers ?w1) h = Some (Interval d (a + 1) m cb)"
    using assms(2) by (simp add: map_of_bump_self)
  have m2: "map_of (timers (clear_timer h ?w1)) h = None"
    by (simp add: clear_timer_def map_of_clear)
  have f3: "handles_fresh (after (sendEvent n ps (clear_timer h ?w1)))"
    using f2 by (simp add: handles_fresh_def sendEvent_frame)
  have m3: "map_of (timers (after (sendEvent n ps (clear_timer h ?w1)))) h = None"
    using m2 by (simp add: sendEvent_frame)
  have n3: "next_handle (after (sendEvent n ps (clear_timer h ?w1))) = next_handle w"
    by (simp add: sendEvent_frame clear_timer_def)
  show ?thesis
  proof (cases "gtag w = None")
    case False
    with assms(2) cb f3 m3 n3 show ?thesis
      by (simp add: timer_fires_def poll_eq Let_def)
  next
    case True
    show ?thesis
    proof (cases "a + 1 < m")
      case True
      with \<open>gtag w = None\<close> assms(2) f1 m1 show ?thesis
        by (simp add: timer_fires_def poll_eq Let_def)
    next
      case False
      with \<open>gtag w = None\<close> assms(2) f2 m2 show ?thesis
        by (simp add: timer_fires_def poll_eq Let_def clear_timer_def)
    qed
  qed
qed

lemma interval_atE:
  assumes "interval_at h w"
  obtains d a m cb where "map_of (timers w) h = Some (Interval d a m cb)"
  using assms by (auto simp: interval_at_def split: option.splits timer.splits)

lemma step_fresh:
  assumes "handles_fresh w" and "h < next_handle w"
  shows "handles_fresh (step e w) \<and> h < next_handle (step e w)"
proof (cases "fires h e \<and> interval_at h w")
  case False
  with assms have "kept h w (step e w)" by (simp add: kept_step)
  with assms(2) show ?thesis by (simp add: kept_def)
next
  case True
  then have e: "e = TimerFires h" by (cases e) simp_all
  from True obtain d a m cb where "map_of (timers w) h = Some (Interval d a m cb)"
    by (auto elim: interval_atE)
  from poll_step [OF assms(1) this] assms(2) e show ?thesis by simp
qed

lemma budget_step:
  assumes "handles_fresh w" and "h < next_handle w"
  shows "(if fires h e \<and> interval_at h w then 1 else 0) + budget h (step e w) \<le> budget h w"
proof (cases "fires h e \<and> interval_at h w")
  case False
  with assms have "kept h w (step e w)" by (simp add: kept_step)
  then have "budget h (step e w) \<le> budget h w"
    by (auto simp: kept_def budget_def)
  with False show ?thesis by auto
next
  case True
  then have e: "e = TimerFires h" by (cases e) simp_all
  from True obtain d a m cb where t: "map_of (timers w) h = Some (Interval d a m cb)"
    by (auto elim: interval_atE)
  from poll_step [OF assms(1) t] e True t show ?thesis
    by (auto simp: budget_def)
qed

lemma active_step:
  assumes "handles_fresh w" and "h < next_handle w"
  shows "(if fires h e \<and> interval_at h w \<and> gtag w \<noteq> None then 1 else 0) +
         (if interval_at h (step e w) then 1 else 0) \<le> (if interval_at h w then 1 else (0::nat))"
proof (cases "fires h e \<and> interval_at h w")
  case False
  with assms have "kept h w (step e w)" by (simp add: kept_step)
  then have "interval_at h (step e w) \<longrightarrow> interval_at h w"
    by (auto simp: kept_def interval_at_def)
  with False show ?thesis by auto
next
  case True
  then have e: "e = TimerFires h" by (cases e) simp_all
  from True obtain d a m cb where t: "map_of (timers w) h = Some (Interval d a m cb)"
    by (auto elim: interval_atE)
  from poll_step [OF assms(1) t] e True t show ?thesis
    by (auto simp: interval_at_def)
qed

lemma polls_budget:
  "handles_fresh w \<Longrightarrow> h < next_handle w \<Longrightarrow>
   polls h w evs + budget h (run w evs) \<le> budget h w"
proof (induction evs arbitrary: w)
  case Nil
  show ?case by simp
next
  case (Cons e es)
  from step_fresh [OF Cons.prems, of e]
  have "polls h (step e w) es + budget h (run (step e w) es) \<le> budget h (step e w)"
    by (intro Cons.IH) simp_all
  with budget_step [OF Cons.prems, of e] show ?case by simp
qed

lemma callbacks_active:
  "handles_fresh w \<Longrightarrow> h < next_handle w \<Longrightarrow>
   callbacks h w evs + (if interval_at h (run w evs) then 1 else 0)
     \<le> (if interval_at h w then 1 else (0::nat))"
proof (induction evs arbitrary: w)
  case Nil
  show ?case by simp
next
  case (Cons e es)
  from step_fresh [OF Cons.prems, of e]
  have "callbacks h (step e w) es + (if interval_at h (run (step e w) es) then 1 else 0)
          \<le> (if interval_at h (step e w) then 1 else (0::nat))"
    by (intro Cons.IH) simp_all
  with active_step [OF Cons.prems, of e] show ?case by simp
qed

lemma budget_active: "interval_at h w \<Longrightarrow> 0 < budget h w"
  by (auto simp: interval_at_def budget_def split: option.splits timer.splits)

text \<open>
  Claim C5.  \<open>waitForGtag\<close> with the budget of 50 starts an interval of 100 ms and
  returns.  In every run that follows, the handler of that interval runs at most 50 times
  and invokes the callback at most once; after a poll that found \<open>window.gtag\<close> and
  invoked the callback, and after the 50th poll, the interval is no longer active.  A single
  poll first counts the attempt; if \<open>window.gtag\<close> is defined it clears the interval
  and invokes the callback, otherwise it invokes nothing and clears the interval when the
  count has reached the budget.
\<close>

theorem waitForGtag_bounded_polling:
  fixes w :: world and cb evs
  assumes "handles_fresh w"
  defines "h \<equiv> next_handle w"
    and "w' \<equiv> after (waitForGtag cb 50 w)"
  shows "waitForGtag cb 50 w = Returns w' \<and>
         timers w' = timers w @ [(h, Interval 100 0 50 cb)] \<and>
         gtag_calls w' = gtag_calls w \<and>
         polls h w' evs \<le> 50 \<and>
         callbacks h w' evs \<le> 1 \<and>
         (polls h w' evs = 50 \<or> callbacks h w' evs = 1 \<longrightarrow> \<not> interval_at h (run w' evs)) \<and>
         (\<forall>v d a m. map_of (timers v) h = Some (Interval d a m cb) \<longrightarrow>
            timer_fires h v =
              (if gtag v \<noteq> None
               then run_callback cb
                      (clearInterval h (v\<lparr>timers := map (bump_attempts h) (timers v)\<rparr>))
               else if a + 1 \<ge> m
               then Returns (clearInterval h (v\<lparr>timers := map (bump_attempts h) (timers v)\<rparr>))
               else Returns (v\<lparr>timers := map (bump_attempts h) (timers v)\<rparr>)))"
proof -
  have ret: "waitForGtag cb 50 w = Returns w'"
    by (simp add: w'_def waitForGtag_def)
  have tm: "timers w' = timers w @ [(h, Interval 100 0 50 cb)]"
    by (simp add: w'_def h_def waitForGtag_def set_timer_def)
  have calls: "gtag_calls w' = gtag_calls w"
    by (simp add: w'_def waitForGtag_def set_timer_def)
  have nh: "next_handle w' = h + 1"
    by (simp add: w'_def h_def waitForGtag_def set_timer_def)
  have fresh: "handles_fresh w'"
    using assms(1) by (auto simp: handles_fresh_def list_all_iff tm nh h_def)
  have lt: "h < next_handle w'" by (simp add: nh)
  have "h \<notin> fst ` set (timers w)"
    using assms(1) by (auto simp: handles_fresh_def list_all_iff h_def)
  then have "map_of (timers w) h = None" by (simp add: map_of_eq_None_iff)
  then have at: "map_of (timers w') h = Some (Interval 100 0 50 cb)"
    by (simp add: tm map_add_def)
  then have b: "budget h w' = 50" and act: "interval_at h w'"
    by (simp_all add: budget_def interval_at_def)
  from polls_budget [OF fresh lt, of evs] b
  have pb: "polls h w' evs + budget h (run w' evs) \<le> 50" by simp
  from callbacks_active [OF fresh lt, of evs] act
  have ca: "callbacks h w' evs + (if interval_at h (run w' evs) then 1 else 0) \<le> 1" by simp
  have stop: "\<not> interval_at h (run w' evs)" if "polls h w' evs = 50 \<or> callbacks h w' evs = 1"
  proof
    assume i: "interval_at h (run w' evs)"
    then have "0 < budget h (run w' evs)" by (rule budget_active)
    with pb ca i that show False by auto
  qed
  have one: "\<forall>v d a m. map_of (timers v) h = Some (Interval d a m cb) \<longrightarrow>
            timer_fires h v =
              (if gtag v \<noteq> None
               then run_callback cb
                      (clearInterval h (v\<lparr>timers := map (bump_attempts h) (timers v)\<rparr>))
               else if a + 1 \<ge> m
               then Returns (clearInterval h (v\<lparr>timers := map (bump_attempts h) (timers v)\<rparr>))
               else Returns (v\<lparr>timers := map (bump_attempts h) (timers v)\<rparr>))"
    by (simp add: timer_fires_def poll_eq Let_def clearInterval_def)
  from ret tm calls pb ca stop one show ?thesis by simp
qed

theorem waitForGtag_bounded_polling_witness:
  "handles_fresh (page_load None ''2024-05-01T10:00:00.000Z'' []) \<and>
   polls 1
     (after (waitForGtag (SendEvent ''signup'' [(''timestamp'', JStr ''2024-05-01T10:00:00.000Z'')])
        50 (page_load None ''2024-05-01T10:00:00.000Z'' [])))
     [TimerFires 1, GtagBecomes (Some (\<lambda>a b c. None)), TimerFires 1, TimerFires 1] = 2 \<and>
   callbacks 1
     (after (waitForGtag (SendEvent ''signup'' [(''timestamp'', JStr ''2024-05-01T10:00:00.000Z'')])
        50 (page_load None ''2024-05-01T10:00:00.000Z'' [])))
     [TimerFires 1, GtagBecomes (Some (\<lambda>a b c. None)), TimerFires 1, TimerFires 1] = 1 \<and>
   \<not> interval_at 1
     (run
        (after (waitForGtag (SendEvent ''signup'' [(''timestamp'', JStr ''2024-05-01T10:00:00.000Z'')])
           50 (page_load None ''2024-05-01T10:00:00.000Z'' [])))
        [TimerFires 1, GtagBecomes (Some (\<lambda>a b c. None)), TimerFires 1, TimerFires 1])"
proof -
  have f: "handles_fresh (page_load None ''2024-05-01T10:00:00.000Z'' [])"
    by (simp add: handles_fresh_def page_load_def)
  have n: "next_handle (page_load None ''2024-05-01T10:00:00.000Z'' []) = 1"
    by (simp add: page_load_def)
  have p: "polls 1
     (after (waitForGtag (SendEvent ''signup'' [(''timestamp'', JStr ''2024-05-01T10:00:00.000Z'')])
        50 (page_load None ''2024-05-01T10:00:00.000Z'' [])))
     [TimerFires 1, GtagBecomes (Some (\<lambda>a b c. None)), TimerFires 1, TimerFires 1] = 2"
    by code_simp
  have c: "callbacks 1
     (after (waitForGtag (SendEvent ''signup'' [(''timestamp'', JStr ''2024-05-01T10:00:00.000Z'')])
        50 (page_load None ''2024-05-01T10:00:00.000Z'' [])))
     [TimerFires 1, GtagBecomes (Some (\<lambda>a b c. None)), TimerFires 1, TimerFires 1] = 1"
    by code_simp
  from waitForGtag_bounded_polling [OF f,
      of "SendEvent ''signup'' [(''timestamp'', JStr ''2024-05-01T10:00:00.000Z'')]"
         "[TimerFires 1, GtagBecomes (Some (\<lambda>a b c. None)), TimerFires 1, TimerFires 1]"]
  show ?thesis using f n p c by simp
qed

section \<open>Timestamps\<close>

lemma stamped_enriched: "stamped (enrichedProperties p c)"
  by (simp add: stamped_def enrichedProperties_def map_of_set_prop)

lemma stamped_timer_bump: "stamped_timer (snd (bump_attempts h kt)) = stamped_timer (snd kt)"
proof -
  obtain k t where kt: "kt = (k, t)" by (cases kt)
  show ?thesis
  proof (cases t)
    case (Interval d a m cb)
    obtain n ps where "cb = SendEvent n ps" by (cases cb)
    with kt Interval show ?thesis by simp
  next
    case (Timeout d p)
    with kt show ?thesis by simp
  qed
qed

lemma stamped_inv_page_load: "stamped_inv (page_load g c ids)"
  by (simp add: stamped_inv_def page_load_def)

lemma stamped_inv_same:
  "stamped_inv w \<Longrightarrow> timers w' = timers w \<Longrightarrow> gtag_calls w' = gtag_calls w \<Longrightarrow> stamped_inv w'"
  by (simp add: stamped_inv_def)

lemma stamped_inv_trackEvent: "stamped_inv w \<Longrightarrow> stamped_inv (after (trackEvent n p w))"
  by (simp add: stamped_inv_def trackEvent_timers trackEvent_gtag_calls stamped_enriched)

lemma stamped_inv_sendEvent:
  "stamped_inv w \<Longrightarrow> stamped ps \<Longrightarrow> stamped_inv (after (sendEvent n ps w))"
  by (simp add: stamped_inv_def sendEvent_eq split: option.splits)

lemma stamped_inv_clear_timer: "stamped_inv w \<Longrightarrow> stamped_inv (clear_timer h w)"
  by (auto simp: stamped_inv_def clear_timer_def list_all_iff)

lemma stamped_inv_bump:
  "stamped_inv w \<Longrightarrow> stamped_inv (w\<lparr>timers := map (bump_attempts h) (timers w)\<rparr>)"
  by (simp add: stamped_inv_def list_all_iff stamped_timer_bump)

lemma stamped_inv_forEach:
  "stamped_inv w \<Longrightarrow> stamped_inv (after (forEach_entry oid sid ev es w))"
proof (induction es arbitrary: w)
  case Nil
  then show ?case by simp
next
  case (Cons e es)
  show ?case
  proof (cases "isIntersecting e")
    case False
    with Cons show ?thesis by simp
  next
    case True
    let ?w1 = "after (trackEvent ev (Some [(''section_id'', JStr sid)]) w)"
    have "stamped_inv ?w1" using Cons.prems by (rule stamped_inv_trackEvent)
    then have "stamped_inv (disconnect oid ?w1)"
      by (rule stamped_inv_same) (simp_all add: disconnect_frame)
    then have "stamped_inv (after (forEach_entry oid sid ev es (disconnect oid ?w1)))"
      by (rule Cons.IH)
    then show ?thesis using True by (simp only: forEach_entry_Cons if_True)
  qed
qed

lemma stamped_inv_timer_fires:
  assumes "stamped_inv w"
  shows "stamped_inv (after (timer_fires h w))"
proof (cases "map_of (timers w) h")
  case None
  with assms show ?thesis by (simp add: timer_fires_def)
next
  case (Some t)
  then have mem: "(h, t) \<in> set (timers w)" by (rule map_of_SomeD)
  show ?thesis
  proof (cases t)
    case (Interval d a m cb)
    obtain n ps where cb: "cb = SendEvent n ps" by (cases cb)
    from assms mem Interval cb have ps: "stamped ps"
      by (auto simp: stamped_inv_def list_all_iff)
    let ?w1 = "w\<lparr>timers := map (bump_attempts h) (timers w)\<rparr>"
    have s1: "stamped_inv ?w1" using assms by (rule stamped_inv_bump)
    then have s2: "stamped_inv (clear_timer h ?w1)" by (rule stamped_inv_clear_timer)
    then have "stamped_inv (after (sendEvent n ps (clear_timer h ?w1)))"
      using ps by (rule stamped_inv_sendEvent)
    with s1 s2 show ?thesis
      using Some Interval cb by (simp add: timer_fires_def poll_eq Let_def)
  next
    case (Timeout d p)
    have "stamped_inv (clear_timer h (after (scroll_timeout_handler p w)))"
      unfolding scroll_timeout_handler_def
      by (intro stamped_inv_clear_timer stamped_inv_trackEvent assms)
    then show ?thesis
      using Some Timeout
      by (simp add: timer_fires_def scroll_timeout_handler_def trackEvent_eq)
  qed
qed

lemma stamped_inv_trackScroll: "stamped_inv w \<Longrightarrow> stamped_inv (trackScroll s w)"
  by (auto simp: stamped_inv_def trackScroll_eq list_all_iff)

lemma stamped_inv_step:
  assumes "stamped_inv w"
  shows "stamped_inv (step e w)"
proof (cases e)
  case (ScrollEvent s)
  with assms show ?thesis by (simp add: trackScroll_funpow stamped_inv_trackScroll)
next
  case (TimerFires h)
  with assms show ?thesis by (simp add: stamped_inv_timer_fires)
next
  case (ObserverNotifies oid entries)
  with assms show ?thesis
    by (simp add: observer_notifies_def stamped_inv_forEach split: option.splits)
next
  case (CallTrackEvent n p)
  with assms show ?thesis by (simp add: stamped_inv_trackEvent)
next
  case (CallTrackCTAClick pos)
  with assms show ?thesis by (simp add: trackCTAClick_def stamped_inv_trackEvent)
next
  case CallInitScrollTracking
  with assms show ?thesis by (simp add: initScrollTracking_def stamped_inv_def)
next
  case (CallTrackSectionView sid ev)
  with assms show ?thesis by (simp add: trackSectionView_def stamped_inv_def)
next
  case (GtagBecomes g)
  with assms show ?thesis by (simp add: stamped_inv_def)
next
  case (ClockBecomes c)
  with assms show ?thesis by (simp add: stamped_inv_def)
next
  case (DocumentBecomes ids)
  with assms show ?thesis by (simp add: stamped_inv_def)
qed

lemma stamped_inv_run: "stamped_inv w \<Longrightarrow> stamped_inv (run w evs)"
  by (induction evs arbitrary: w) (simp_all add: stamped_inv_step)

text \<open>
  Claim C2.  \<open>trackEvent\<close> puts the time of the call under \<open>timestamp\<close> before it
  does anything else, for every event name and every properties argument, an absent one
  included.  When \<open>window.gtag\<close> is defined the event is sent at once with these
  properties; when it is not, nothing is sent yet and the same properties wait in the
  callback of the polling interval.  In every run of a page, every call that
  \<open>window.gtag\<close> has received carries a timestamp.
\<close>

theorem trackEvent_attaches_timestamp:
  "map_of (enrichedProperties properties (clock w)) ''timestamp'' = Some (JStr (clock w)) \<and>
   (gtag w \<noteq> None \<longrightarrow>
      gtag_calls (after (trackEvent eventName properties w)) =
        gtag_calls w @ [(''event'', eventName, enrichedProperties properties (clock w))]) \<and>
   (gtag w = None \<longrightarrow>
      gtag_calls (after (trackEvent eventName properties w)) = gtag_calls w \<and>
      timers (after (trackEvent eventName properties w)) =
        timers w @
          [(next_handle w,
            Interval 100 0 50
              (SendEvent eventName (enrichedProperties properties (clock w))))]) \<and>
   list_all (\<lambda>c. stamped (snd (snd c))) (gtag_calls (run (page_load g stamp ids) evs))"
proof -
  have "stamped_inv (run (page_load g stamp ids) evs)"
    by (intro stamped_inv_run stamped_inv_page_load)
  then have "list_all (\<lambda>c. stamped (snd (snd c))) (gtag_calls (run (page_load g stamp ids) evs))"
    by (simp add: stamped_inv_def)
  then show ?thesis
    by (simp add: trackEvent_timers trackEvent_gtag_calls enrichedProperties_def map_of_set_prop)
qed

theorem trackEvent_attaches_timestamp_witness:
  "gtag (page_load (Some (\<lambda>a b c. None)) ''2024-05-01T10:00:00.000Z'' []) \<noteq> None \<and>
   gtag_calls (after (trackEvent ''signup'' None
      (page_load (Some (\<lambda>a b c. None)) ''2024-05-01T10:00:00.000Z'' []))) =
   [(''event'', ''signup'', [(''timestamp'', JStr ''2024-05-01T10:00:00.000Z'')])] \<and>
   list_all (\<lambda>c. stamped (snd (snd c)))
     (gtag_calls (run (page_load None ''2024-05-01T10:00:00.000Z'' [])
        [CallTrackEvent ''signup'' (Some [(''plan'', JStr ''pro'')]),
         GtagBecomes (Some (\<lambda>a b c. None)), TimerFires 1]))"
proof -
  have a: "gtag (page_load (Some (\<lambda>a b c. None)) ''2024-05-01T10:00:00.000Z'' []) \<noteq> None"
    by (simp add: page_load_def)
  from trackEvent_attaches_timestamp
    [of None "page_load (Some (\<lambda>a b c. None)) ''2024-05-01T10:00:00.000Z'' []" "''signup''"
        None "''2024-05-01T10:00:00.000Z''" "[]"
        "[CallTrackEvent ''signup'' (Some [(''plan'', JStr ''pro'')]),
          GtagBecomes (Some (\<lambda>a b c. None)), TimerFires 1]"]
  show ?thesis using a by (simp add: page_load_def enrichedProperties_def)
qed

section \<open>Section views, batch by batch\<close>

lemma forEach_entry_calls:
  "gtag w \<noteq> None \<Longrightarrow>
   length (gtag_calls (after (forEach_entry oid sid ev es w))) =
     length (gtag_calls w) + length (filter isIntersecting es)"
proof (induction es arbitrary: w)
  case Nil
  show ?case by simp
next
  case (Cons e es)
  show ?case
  proof (cases "isIntersecting e")
    case False
    with Cons show ?thesis by simp
  next
    case True
    let ?w1 = "disconnect oid (after (trackEvent ev (Some [(''section_id'', JStr sid)]) w))"
    have "gtag ?w1 \<noteq> None"
      using Cons.prems by (simp add: disconnect_frame trackEvent_frame)
    then have "length (gtag_calls (after (forEach_entry oid sid ev es ?w1))) =
                 length (gtag_calls ?w1) + length (filter isIntersecting es)"
      by (rule Cons.IH)
    moreover have "length (gtag_calls ?w1) = length (gtag_calls w) + 1"
      using Cons.prems by (simp add: disconnect_frame trackEvent_gtag_calls)
    moreover have "forEach_entry oid sid ev (e # es) w = forEach_entry oid sid ev es ?w1"
      using True by (simp only: forEach_entry_Cons if_True)
    ultimately show ?thesis using True by simp
  qed
qed

text \<open>
  What does hold across batches: once a notification has carried an intersecting entry, the
  observer is disconnected and every later notification does nothing.
\<close>

lemma map_of_disconnect:
  "map_of (observers (disconnect oid w)) k =
     (if k = oid then map_option (\<lambda>ob. ob\<lparr>targets := []\<rparr>) (map_of (observers w) k)
      else map_of (observers w) k)"
proof -
  have "map_of (map (\<lambda>(k, ob). if k = oid then (k, ob\<lparr>targets := []\<rparr>) else (k, ob)) obs) k =
     (if k = oid then map_option (\<lambda>ob. ob\<lparr>targets := []\<rparr>) (map_of obs k)
      else map_of obs k)" for obs :: "(nat \<times> observer) list"
    by (induction obs) auto
  then show ?thesis by (simp add: disconnect_def)
qed

lemma forEach_entry_disconnects:
  assumes "map_of (observers w) oid = Some ob" and "list_ex isIntersecting es"
  shows "\<exists>ob'. map_of (observers (after (forEach_entry oid sid ev es w))) oid = Some ob' \<and>
           targets ob' = []"
proof -
  have keep: "\<exists>ob'. map_of (observers (after (forEach_entry oid sid ev es v))) oid = Some ob' \<and>
           targets ob' = []"
    if "map_of (observers v) oid = Some ob'" "targets ob' = []" for v ob' es
    using that
  proof (induction es arbitrary: v ob')
    case Nil
    then show ?case by simp
  next
    case (Cons e es)
    show ?case
    proof (cases "isIntersecting e")
      case False
      with Cons show ?thesis by simp
    next
      case True
      let ?v1 = "disconnect oid (after (trackEvent ev (Some [(''section_id'', JStr sid)]) v))"
      have "map_of (observers ?v1) oid = Some (ob'\<lparr>targets := []\<rparr>)"
        using Cons.prems by (simp add: map_of_disconnect trackEvent_frame)
      then have "\<exists>ob''. map_of (observers (after (forEach_entry oid sid ev es ?v1))) oid = Some ob''
                  \<and> targets ob'' = []"
        by (rule Cons.IH) simp
      then show ?thesis using True by (simp only: forEach_entry_Cons if_True)
    qed
  qed
  from assms show ?thesis
  proof (induction es arbitrary: w ob)
    case Nil
    then show ?case by simp
  next
    case (Cons e es)
    show ?case
    proof (cases "isIntersecting e")
      case False
      with Cons show ?thesis by simp
    next
      case True
      let ?w1 = "disconnect oid (after (trackEvent ev (Some [(''section_id'', JStr sid)]) w))"
      have "map_of (observers ?w1) oid = Some (ob\<lparr>targets := []\<rparr>)"
        using Cons.prems by (simp add: map_of_disconnect trackEvent_frame)
      then have "\<exists>ob'. map_of (observers (after (forEach_entry oid sid ev es ?w1))) oid = Some ob'
                  \<and> targets ob' = []"
        by (rule keep) simp
      then show ?thesis using True by (simp only: forEach_entry_Cons if_True)
    qed
  qed
qed

lemma observer_one_shot:
  assumes "list_ex isIntersecting es"
  shows "observer_notifies oid es' (after (observer_notifies oid es w)) =
           Returns (after (observer_notifies oid es w))"
proof (cases "map_of (observers w) oid")
  case None
  then show ?thesis by (simp add: observer_notifies_def)
next
  case (Some ob)
  show ?thesis
  proof (cases "targets ob = []")
    case True
    with Some show ?thesis by (simp add: observer_notifies_def)
  next
    case False
    from forEach_entry_disconnects [OF Some assms]
    obtain ob' where "map_of (observers (after (forEach_entry oid (ob_sectionId ob)
         (ob_eventName ob) es w))) oid = Some ob'" "targets ob' = []"
      by blast
    with Some False show ?thesis by (simp add: observer_notifies_def)
  qed
qed

text \<open>
  Claim C4.  The claim is that a section-view event is emitted at most once per page load,
  whatever batches of entries the observer callback receives.  The callback visits every
  entry of a batch and emits for each intersecting one, so a batch emits as many events as
  it has intersecting entries: on a page with the section \<open>features\<close>, one notification
  with two intersecting entries makes \<open>window.gtag\<close> receive the event twice.
\<close>

theorem trackSectionView_emits_per_intersecting_entry:
  "gtag_calls
     (run (page_load (Some (\<lambda>a b c. None)) ''2024-05-01T10:00:00.000Z'' [''features''])
        [CallTrackSectionView ''features'' ''LandingPg_Features_Viewed'',
         ObserverNotifies 0
           [\<lparr>target = ''features'', isIntersecting = True\<rparr>,
            \<lparr>target = ''features'', isIntersecting = True\<rparr>]]) =
   [(''event'', ''LandingPg_Features_Viewed'',
     [(''section_id'', JStr ''features''), (''timestamp'', JStr ''2024-05-01T10:00:00.000Z'')]),
    (''event'', ''LandingPg_Features_Viewed'',
     [(''section_id'', JStr ''features''), (''timestamp'', JStr ''2024-05-01T10:00:00.000Z'')])]"
  by (simp add: page_load_def trackSectionView_def observer_notifies_def trackEvent_eq
        disconnect_def enrichedProperties_def)

end
